theory Spec2Isabelle
  imports Complex_Main "HOL-Library.Word" "HOL-Library.Log_Nat"
begin

unbundle bit_operations_syntax

section \<open>The floating-point environment\<close>

text \<open>
  The four rounding modes of \<^verbatim>\<open><fenv.h>\<close>, the sticky exception flags and \<^verbatim>\<open>errno\<close>.
  The state records what the library code itself writes, the assignments to \<^verbatim>\<open>errno\<close>
  and the calls of \<^verbatim>\<open>fputil::set_except\<close>, and the invalid-operation flag raised by
  the additions that the functions execute on an argument that may be a NaN or an
  infinity (\<^verbatim>\<open>x + inf\<close> and \<^verbatim>\<open>x + build_nan(..)\<close>): IEEE 754 raises it when an operand is a
  signalling NaN. The inexact, overflow and underflow flags that a rounding raises are
  not part of the state.
\<close>

datatype rounding = FE_TONEAREST | FE_UPWARD | FE_DOWNWARD | FE_TOWARDZERO

datatype fexcept = FE_INVALID | FE_DIVBYZERO | FE_OVERFLOW | FE_UNDERFLOW | FE_INEXACT

record fenv =
  rmode :: rounding
  errno :: int
  excepts :: "fexcept set"

definition EDOM :: int where "EDOM = 33"
definition ERANGE :: int where "ERANGE = 34"

text \<open>Modelled from the spec: \<^verbatim>\<open>FEnvImpl.h\<close> is missing. The spec's consumed interfaces are
  a rounding-mode query, \<open>set last error = code\<close> and \<open>raise(flag)\<close> on a sticky flag.\<close>

definition get_round :: "fenv \<Rightarrow> rounding" where
  "get_round s = rmode s"

definition set_errno :: "int \<Rightarrow> fenv \<Rightarrow> fenv" where
  "set_errno c s = s\<lparr>errno := c\<rparr>"

definition set_except :: "fexcept \<Rightarrow> fenv \<Rightarrow> fenv" where
  "set_except f s = s\<lparr>excepts := insert f (excepts s)\<rparr>"

definition raise_if :: "bool \<Rightarrow> fexcept \<Rightarrow> fenv \<Rightarrow> fenv" where
  \<comment> \<open>the effect of an arithmetic instruction that raises the flag \<open>f\<close> when \<open>b\<close> holds\<close>
  "raise_if b f s = (if b then s\<lparr>excepts := insert f (excepts s)\<rparr> else s)"

section \<open>IEEE 754 binary arithmetic on bit patterns\<close>

text \<open>
  The C++ operators on \<^verbatim>\<open>float\<close> and \<^verbatim>\<open>double\<close> are the IEEE 754 operations of the
  binary32 and binary64 formats under the dynamic rounding mode. They are modelled on the
  encodings: a format is given by its exponent width \<open>ew\<close> and mantissa width \<open>mw\<close>, a
  bit pattern is a natural number below \<open>2 ^ (1 + ew + mw)\<close>, and the exact value of a
  finite pattern is a dyadic number \<open>m * 2 ^ e\<close> kept as the pair \<open>(m, e)\<close>. Every operation
  computes the exact result as a dyadic number and rounds it once.
\<close>

type_synonym dyadic = "int \<times> int"

definition emin :: "nat \<Rightarrow> nat \<Rightarrow> int" where
  \<comment> \<open>exponent of the least significant mantissa bit of the subnormal numbers\<close>
  "emin ew mw = 2 - 2 ^ (ew - 1) - int mw"

definition sign_of :: "nat \<Rightarrow> nat \<Rightarrow> nat \<Rightarrow> bool" where
  "sign_of ew mw n = odd (n div 2 ^ (ew + mw))"

definition expo_of :: "nat \<Rightarrow> nat \<Rightarrow> nat \<Rightarrow> nat" where
  "expo_of ew mw n = (n div 2 ^ mw) mod 2 ^ ew"

definition frac_of :: "nat \<Rightarrow> nat \<Rightarrow> nat" where
  "frac_of mw n = n mod 2 ^ mw"

definition nan_of :: "nat \<Rightarrow> nat \<Rightarrow> nat \<Rightarrow> bool" where
  "nan_of ew mw n \<longleftrightarrow> expo_of ew mw n = 2 ^ ew - 1 \<and> frac_of mw n \<noteq> 0"

definition inf_of :: "nat \<Rightarrow> nat \<Rightarrow> nat \<Rightarrow> bool" where
  "inf_of ew mw n \<longleftrightarrow> expo_of ew mw n = 2 ^ ew - 1 \<and> frac_of mw n = 0"

definition zero_of :: "nat \<Rightarrow> nat \<Rightarrow> nat \<Rightarrow> bool" where
  "zero_of ew mw n \<longleftrightarrow> expo_of ew mw n = 0 \<and> frac_of mw n = 0"

definition sign_bit :: "nat \<Rightarrow> nat \<Rightarrow> bool \<Rightarrow> nat" where
  "sign_bit ew mw neg = (if neg then 2 ^ (ew + mw) else 0)"

definition inf_pat :: "nat \<Rightarrow> nat \<Rightarrow> nat" where
  "inf_pat ew mw = (2 ^ ew - 1) * 2 ^ mw"

definition quiet_of :: "nat \<Rightarrow> nat \<Rightarrow> nat" where
  \<comment> \<open>a NaN operand comes back with its quiet bit set\<close>
  "quiet_of mw n = (if odd (n div 2 ^ (mw - 1)) then n else n + 2 ^ (mw - 1))"

definition default_nan :: "nat \<Rightarrow> nat \<Rightarrow> nat" where
  \<comment> \<open>the NaN of an invalid operation; its sign bit depends on the target\<close>
  "default_nan ew mw = inf_pat ew mw + 2 ^ (mw - 1)"

definition negate_of :: "nat \<Rightarrow> nat \<Rightarrow> nat \<Rightarrow> nat" where
  "negate_of ew mw n = (if sign_of ew mw n then n - 2 ^ (ew + mw) else n + 2 ^ (ew + mw))"

definition dy_of :: "nat \<Rightarrow> nat \<Rightarrow> nat \<Rightarrow> dyadic" where
  \<comment> \<open>the exact value of a finite pattern\<close>
  "dy_of ew mw n =
     (let ex = expo_of ew mw n;
          m = (if ex = 0 then int (frac_of mw n) else 2 ^ mw + int (frac_of mw n));
          e = (if ex = 0 then emin ew mw else emin ew mw + int ex - 1)
      in (if sign_of ew mw n then - m else m, e))"

definition dy_add :: "dyadic \<Rightarrow> dyadic \<Rightarrow> dyadic" where
  "dy_add a b =
     (let e = min (snd a) (snd b)
      in (fst a * 2 ^ nat (snd a - e) + fst b * 2 ^ nat (snd b - e), e))"

definition dy_mul :: "dyadic \<Rightarrow> dyadic \<Rightarrow> dyadic" where
  "dy_mul a b = (fst a * fst b, snd a + snd b)"

definition dy_less :: "dyadic \<Rightarrow> dyadic \<Rightarrow> bool" where
  "dy_less a b =
     (let e = min (snd a) (snd b)
      in fst a * 2 ^ nat (snd a - e) < fst b * 2 ^ nat (snd b - e))"

definition round_away :: "rounding \<Rightarrow> bool \<Rightarrow> nat \<Rightarrow> nat \<Rightarrow> nat \<Rightarrow> bool" where
  \<comment> \<open>whether the magnitude \<open>t + r / d\<close> with \<open>r < d\<close> is rounded to \<open>t + 1\<close>\<close>
  "round_away rm neg t r d =
     (if r = 0 then False
      else case rm of
        FE_TONEAREST \<Rightarrow> d < 2 * r \<or> (2 * r = d \<and> odd t)
      | FE_UPWARD \<Rightarrow> \<not> neg
      | FE_DOWNWARD \<Rightarrow> neg
      | FE_TOWARDZERO \<Rightarrow> False)"

definition overflow_inf :: "rounding \<Rightarrow> bool \<Rightarrow> bool" where
  \<comment> \<open>whether an overflowing result becomes an infinity (otherwise the largest finite number)\<close>
  "overflow_inf rm neg =
     (case rm of
        FE_TONEAREST \<Rightarrow> True
      | FE_UPWARD \<Rightarrow> \<not> neg
      | FE_DOWNWARD \<Rightarrow> neg
      | FE_TOWARDZERO \<Rightarrow> False)"

definition fround :: "nat \<Rightarrow> nat \<Rightarrow> rounding \<Rightarrow> bool \<Rightarrow> nat \<Rightarrow> int \<Rightarrow> nat" where
  \<comment> \<open>the pattern of \<open>\<plusminus> a * 2 ^ e\<close> rounded to the format\<close>
  "fround ew mw rm neg a e =
     (if a = 0 then sign_bit ew mw neg
      else
        let q = max (emin ew mw) (e + bitlen (int a) - int (mw + 1));
            t = (if q \<le> e then a * 2 ^ nat (e - q) else a div 2 ^ nat (q - e));
            r = (if q \<le> e then 0 else a mod 2 ^ nat (q - e));
            t' = (if round_away rm neg t r (2 ^ nat (q - e)) then t + 1 else t);
            pat = nat (q - emin ew mw) * 2 ^ mw + t'
        in sign_bit ew mw neg +
           (if inf_pat ew mw \<le> pat
            then (if overflow_inf rm neg then inf_pat ew mw else inf_pat ew mw - 1)
            else pat))"

definition fround_dy :: "nat \<Rightarrow> nat \<Rightarrow> rounding \<Rightarrow> dyadic \<Rightarrow> nat" where
  "fround_dy ew mw rm v = fround ew mw rm (fst v < 0) (nat \<bar>fst v\<bar>) (snd v)"

definition zero_sum :: "nat \<Rightarrow> nat \<Rightarrow> rounding \<Rightarrow> bool \<Rightarrow> bool \<Rightarrow> nat" where
  \<comment> \<open>the sign of an exact zero sum of two terms with the given signs\<close>
  "zero_sum ew mw rm s1 s2 =
     sign_bit ew mw (if s1 = s2 then s1 else rm = FE_DOWNWARD)"

definition fadd :: "nat \<Rightarrow> nat \<Rightarrow> rounding \<Rightarrow> nat \<Rightarrow> nat \<Rightarrow> nat" where
  "fadd ew mw rm x y =
     (if nan_of ew mw x then quiet_of mw x
      else if nan_of ew mw y then quiet_of mw y
      else if inf_of ew mw x then
        (if inf_of ew mw y \<and> sign_of ew mw x \<noteq> sign_of ew mw y then default_nan ew mw else x)
      else if inf_of ew mw y then y
      else
        let v = dy_add (dy_of ew mw x) (dy_of ew mw y)
        in if fst v = 0 then zero_sum ew mw rm (sign_of ew mw x) (sign_of ew mw y)
           else fround_dy ew mw rm v)"

definition snan_of :: "nat \<Rightarrow> nat \<Rightarrow> nat \<Rightarrow> bool" where
  \<comment> \<open>a signalling NaN: the quiet bit, the first bit of the mantissa, is clear\<close>
  "snan_of ew mw n \<longleftrightarrow> nan_of ew mw n \<and> even (n div 2 ^ (mw - 1))"

definition fadd_invalid :: "nat \<Rightarrow> nat \<Rightarrow> nat \<Rightarrow> nat \<Rightarrow> bool" where
  \<comment> \<open>whether the addition raises the invalid-operation exception: a signalling NaN
      operand, or the sum of two infinities of opposite signs\<close>
  "fadd_invalid ew mw x y \<longleftrightarrow>
     snan_of ew mw x \<or> snan_of ew mw y \<or>
     (inf_of ew mw x \<and> inf_of ew mw y \<and> sign_of ew mw x \<noteq> sign_of ew mw y)"

definition fsub :: "nat \<Rightarrow> nat \<Rightarrow> rounding \<Rightarrow> nat \<Rightarrow> nat \<Rightarrow> nat" where
  "fsub ew mw rm x y =
     (if nan_of ew mw x then quiet_of mw x
      else if nan_of ew mw y then quiet_of mw y
      else fadd ew mw rm x (negate_of ew mw y))"

definition fmul :: "nat \<Rightarrow> nat \<Rightarrow> rounding \<Rightarrow> nat \<Rightarrow> nat \<Rightarrow> nat" where
  "fmul ew mw rm x y =
     (let neg = (sign_of ew mw x \<noteq> sign_of ew mw y) in
      if nan_of ew mw x then quiet_of mw x
      else if nan_of ew mw y then quiet_of mw y
      else if inf_of ew mw x \<or> inf_of ew mw y then
        (if zero_of ew mw x \<or> zero_of ew mw y then default_nan ew mw
         else sign_bit ew mw neg + inf_pat ew mw)
      else
        let v = dy_mul (dy_of ew mw x) (dy_of ew mw y)
        in fround ew mw rm neg (nat \<bar>fst v\<bar>) (snd v))"

definition ffma :: "nat \<Rightarrow> nat \<Rightarrow> rounding \<Rightarrow> nat \<Rightarrow> nat \<Rightarrow> nat \<Rightarrow> nat" where
  \<comment> \<open>the fused multiply-add \<open>x * y + z\<close> with a single rounding\<close>
  "ffma ew mw rm x y z =
     (let neg = (sign_of ew mw x \<noteq> sign_of ew mw y) in
      if nan_of ew mw x then quiet_of mw x
      else if nan_of ew mw y then quiet_of mw y
      else if nan_of ew mw z then quiet_of mw z
      else if inf_of ew mw x \<or> inf_of ew mw y then
        (if zero_of ew mw x \<or> zero_of ew mw y then default_nan ew mw
         else if inf_of ew mw z \<and> sign_of ew mw z \<noteq> neg then default_nan ew mw
         else sign_bit ew mw neg + inf_pat ew mw)
      else if inf_of ew mw z then z
      else
        let v = dy_add (dy_mul (dy_of ew mw x) (dy_of ew mw y)) (dy_of ew mw z)
        in if fst v = 0 then zero_sum ew mw rm neg (sign_of ew mw z)
           else fround_dy ew mw rm v)"

definition fless :: "nat \<Rightarrow> nat \<Rightarrow> nat \<Rightarrow> nat \<Rightarrow> bool" where
  \<comment> \<open>the comparison \<open>x < y\<close>: false when an operand is a NaN\<close>
  "fless ew mw x y =
     (if nan_of ew mw x \<or> nan_of ew mw y then False
      else if inf_of ew mw x then sign_of ew mw x \<and> \<not> (inf_of ew mw y \<and> sign_of ew mw y)
      else if inf_of ew mw y then \<not> sign_of ew mw y
      else dy_less (dy_of ew mw x) (dy_of ew mw y))"

definition fconv :: "nat \<Rightarrow> nat \<Rightarrow> nat \<Rightarrow> nat \<Rightarrow> rounding \<Rightarrow> nat \<Rightarrow> nat" where
  \<comment> \<open>conversion from the format \<open>(ew, mw)\<close> to the format \<open>(ew', mw')\<close>\<close>
  "fconv ew mw ew' mw' rm x =
     (if nan_of ew mw x then
        sign_bit ew' mw' (sign_of ew mw x) + inf_pat ew' mw' +
          (if mw \<le> mw' then quiet_of mw (frac_of mw x) * 2 ^ (mw' - mw)
           else quiet_of mw (frac_of mw x) div 2 ^ (mw - mw'))
      else if inf_of ew mw x then sign_bit ew' mw' (sign_of ew mw x) + inf_pat ew' mw'
      else fround ew' mw' rm (sign_of ew mw x) (nat \<bar>fst (dy_of ew mw x)\<bar>) (snd (dy_of ew mw x)))"

definition ftrunc :: "nat \<Rightarrow> nat \<Rightarrow> nat \<Rightarrow> int" where
  \<comment> \<open>the integer part of a finite pattern, rounded toward zero\<close>
  "ftrunc ew mw x =
     (let v = dy_of ew mw x;
          a = (if 0 \<le> snd v then \<bar>fst v\<bar> * 2 ^ nat (snd v) else \<bar>fst v\<bar> div 2 ^ nat (- snd v))
      in if fst v < 0 then - a else a)"

definition fof_int :: "nat \<Rightarrow> nat \<Rightarrow> rounding \<Rightarrow> int \<Rightarrow> nat" where
  "fof_int ew mw rm i = fround ew mw rm (i < 0) (nat \<bar>i\<bar>) 0"


subsection \<open>The C++ types \<^verbatim>\<open>float\<close> and \<^verbatim>\<open>double\<close>\<close>

type_synonym float = "32 word"
type_synonym double = "64 word"

definition f32_add :: "rounding \<Rightarrow> float \<Rightarrow> float \<Rightarrow> float" where
  "f32_add rm x y = word_of_nat (fadd 8 23 rm (unat x) (unat y))"

definition f32_add_invalid :: "float \<Rightarrow> float \<Rightarrow> bool" where
  "f32_add_invalid x y \<longleftrightarrow> fadd_invalid 8 23 (unat x) (unat y)"

definition f32_signaling :: "float \<Rightarrow> bool" where
  "f32_signaling x \<longleftrightarrow> snan_of 8 23 (unat x)"

definition f32_sub :: "rounding \<Rightarrow> float \<Rightarrow> float \<Rightarrow> float" where
  "f32_sub rm x y = word_of_nat (fsub 8 23 rm (unat x) (unat y))"

definition f32_mul :: "rounding \<Rightarrow> float \<Rightarrow> float \<Rightarrow> float" where
  "f32_mul rm x y = word_of_nat (fmul 8 23 rm (unat x) (unat y))"

definition f32_fma :: "rounding \<Rightarrow> float \<Rightarrow> float \<Rightarrow> float \<Rightarrow> float" where
  "f32_fma rm x y z = word_of_nat (ffma 8 23 rm (unat x) (unat y) (unat z))"

definition f32_neg :: "float \<Rightarrow> float" where
  \<comment> \<open>unary minus flips the sign bit\<close>
  "f32_neg x = x XOR 0x80000000"

definition f32_lt :: "float \<Rightarrow> float \<Rightarrow> bool" where
  "f32_lt x y = fless 8 23 (unat x) (unat y)"

definition f32_ge :: "float \<Rightarrow> float \<Rightarrow> bool" where
  "f32_ge x y \<longleftrightarrow>
     \<not> nan_of 8 23 (unat x) \<and> \<not> nan_of 8 23 (unat y) \<and> \<not> fless 8 23 (unat x) (unat y)"

definition f32_ne :: "float \<Rightarrow> float \<Rightarrow> bool" where
  "f32_ne x y \<longleftrightarrow>
     nan_of 8 23 (unat x) \<or> nan_of 8 23 (unat y) \<or>
     fless 8 23 (unat x) (unat y) \<or> fless 8 23 (unat y) (unat x)"

definition f32_to_int :: "float \<Rightarrow> int" where
  \<comment> \<open>\<^verbatim>\<open>static_cast<int>\<close>: truncation. C++ leaves the conversion of a NaN, an infinity or
      a value outside the range of \<^verbatim>\<open>int\<close> undefined; the model returns \<^verbatim>\<open>INT_MIN\<close> there,
      as the x86-64 conversion instruction does.\<close>
  "f32_to_int x =
     (if nan_of 8 23 (unat x) \<or> inf_of 8 23 (unat x) then - (2 ^ 31)
      else let i = ftrunc 8 23 (unat x)
           in if - (2 ^ 31) \<le> i \<and> i < 2 ^ 31 then i else - (2 ^ 31))"

definition int_to_f32 :: "rounding \<Rightarrow> int \<Rightarrow> float" where
  "int_to_f32 rm i = word_of_nat (fof_int 8 23 rm i)"

definition f32_to_f64 :: "float \<Rightarrow> double" where
  \<comment> \<open>widening is exact: the rounding mode plays no role\<close>
  "f32_to_f64 x = word_of_nat (fconv 8 23 11 52 FE_TONEAREST (unat x))"

definition f64_to_f32 :: "rounding \<Rightarrow> double \<Rightarrow> float" where
  "f64_to_f32 rm x = word_of_nat (fconv 11 52 8 23 rm (unat x))"

definition f64_add :: "rounding \<Rightarrow> double \<Rightarrow> double \<Rightarrow> double" where
  "f64_add rm x y = word_of_nat (fadd 11 52 rm (unat x) (unat y))"

definition f64_sub :: "rounding \<Rightarrow> double \<Rightarrow> double \<Rightarrow> double" where
  "f64_sub rm x y = word_of_nat (fsub 11 52 rm (unat x) (unat y))"

definition f64_mul :: "rounding \<Rightarrow> double \<Rightarrow> double \<Rightarrow> double" where
  "f64_mul rm x y = word_of_nat (fmul 11 52 rm (unat x) (unat y))"

definition f64_fma :: "rounding \<Rightarrow> double \<Rightarrow> double \<Rightarrow> double \<Rightarrow> double" where
  "f64_fma rm x y z = word_of_nat (ffma 11 52 rm (unat x) (unat y) (unat z))"

definition f64_neg :: "double \<Rightarrow> double" where
  "f64_neg x = x XOR 0x8000000000000000"

section \<open>The FPBits view of a float\<close>

text \<open>Modelled from the spec: \<^verbatim>\<open>FPBits.h\<close> is missing. The spec's FloatBits view is a pure
  reinterpretation of the encoding: sign, exponent field, mantissa, the classification
  predicates and the construction of constants from bit patterns. The accessor
  \<^verbatim>\<open>get_unbiased_exponent\<close> is the stored exponent field: the callers compare it with 101,
  102 and 123 for the bounds \<open>2^-25\<close> and \<open>2^-4\<close> of their comments, and the second
  \<^verbatim>\<open>expm1f\<close> makes the same tests on the bit pattern.\<close>

definition uintval :: "float \<Rightarrow> 32 word" where
  "uintval x = x"

definition get_val :: "32 word \<Rightarrow> float" where
  "get_val b = b"

definition get_sign :: "float \<Rightarrow> bool" where
  "get_sign x \<longleftrightarrow> sign_of 8 23 (unat x)"

definition get_unbiased_exponent :: "float \<Rightarrow> nat" where
  "get_unbiased_exponent x = expo_of 8 23 (unat x)"

definition is_inf :: "float \<Rightarrow> bool" where
  "is_inf x \<longleftrightarrow> inf_of 8 23 (unat x)"

definition is_nan :: "float \<Rightarrow> bool" where
  "is_nan x \<longleftrightarrow> nan_of 8 23 (unat x)"

definition MIN_SUBNORMAL :: "32 word" where "MIN_SUBNORMAL = 0x00000001"
definition MAX_NORMAL :: "32 word" where "MAX_NORMAL = 0x7f7fffff"
definition FPBits_inf :: "float" where "FPBits_inf = 0x7f800000"

definition build_nan :: "32 word \<Rightarrow> float" where
  "build_nan v = 0x7f800000 OR v"

section \<open>Polynomial evaluation\<close>

text \<open>The build-time parameters of the library and the parts of it that the functions
  below use but whose definitions are missing: the macro \<^verbatim>\<open>LIBC_TARGET_HAS_FMA\<close>, the
  tables \<^verbatim>\<open>EXP_M1\<close> and \<^verbatim>\<open>EXP_M2\<close> of \<^verbatim>\<open>common_constants.h\<close> and the range reduction
  \<^verbatim>\<open>sincosf_eval\<close> of \<^verbatim>\<open>sincosf_utils.h\<close>, which returns \<open>(sin_k, cos_k, sin_y, cosm1_y)\<close>.\<close>

record target =
  has_fma :: bool
  EXP_M1 :: "int \<Rightarrow> double"
  EXP_M2 :: "int \<Rightarrow> double"
  sincosf_eval :: "rounding \<Rightarrow> double \<Rightarrow> 32 word \<Rightarrow> double \<times> double \<times> double \<times> double"

text \<open>Modelled from the spec: \<^verbatim>\<open>multiply_add.h\<close>, \<^verbatim>\<open>FMA.h\<close> and \<^verbatim>\<open>PolyEval.h\<close> are
  missing. \<^verbatim>\<open>fputil::fma\<close> is the fused multiply-add. \<^verbatim>\<open>fputil::multiply_add\<close> is fused
  where the target has the instruction (the spec: fused-multiply-add where available);
  otherwise it is the product followed by the sum, which is why \<^verbatim>\<open>sincosf\<close> goes through
  \<^verbatim>\<open>double\<close> on such targets to keep \<open>-2^-25 * x\<close> from underflowing. \<^verbatim>\<open>polyeval\<close> is
  Horner's scheme, the low-degree term last.\<close>

definition multiply_add_f32 :: "bool \<Rightarrow> rounding \<Rightarrow> float \<Rightarrow> float \<Rightarrow> float \<Rightarrow> float" where
  "multiply_add_f32 fma rm x y z =
     (if fma then f32_fma rm x y z else f32_add rm (f32_mul rm x y) z)"

definition multiply_add :: "bool \<Rightarrow> rounding \<Rightarrow> double \<Rightarrow> double \<Rightarrow> double \<Rightarrow> double" where
  "multiply_add fma rm x y z =
     (if fma then f64_fma rm x y z else f64_add rm (f64_mul rm x y) z)"

fun polyeval :: "bool \<Rightarrow> rounding \<Rightarrow> double \<Rightarrow> double list \<Rightarrow> double" where
  "polyeval fma rm x [] = 0"
| "polyeval fma rm x [a0] = a0"
| "polyeval fma rm x (a0 # a) = multiply_add fma rm x (polyeval fma rm x a) a0"

section \<open>expf\<close>

definition expf_general :: "target \<Rightarrow> fenv \<Rightarrow> float \<Rightarrow> float \<times> fenv" where
  "expf_general T s x =
     (let rm = get_round s;
          x_hi = f32_to_int (f32_add rm (f32_mul rm x 0x43000000)
                   (if get_sign x then 0xbf000000 else 0x3f000000));
          x1 = f32_sub rm x (f32_mul rm (int_to_f32 rm x_hi) 0x3c000000);
          xd = f32_to_f64 x1;
          x_hi1 = x_hi + 104 * 2 ^ 7;
          exp_hi = EXP_M1 T (x_hi1 div 2 ^ 7);
          exp_mid = EXP_M2 T (x_hi1 mod 2 ^ 7);
          exp_lo = polyeval (has_fma T) rm xd
                     [0x3ff0000000000000, 0x3feffffffffff777, 0x3fe000000000071c,
                      0x3fc555566668e5e7, 0x3fa55555555ef243]
      in (f64_to_f32 rm (f64_mul rm (f64_mul rm exp_hi exp_mid) exp_lo), s))"

definition expf :: "target \<Rightarrow> fenv \<Rightarrow> float \<Rightarrow> float \<times> fenv" where
  "expf T s x =
     (let x_u = uintval x;
          x_abs = x_u AND 0x7fffffff
      in
      if x_u = 0xc236bd8c then
        (f32_sub (get_round s) 0x1e88452c (f32_mul (get_round s) x 0x10000000), s)
      else if 0x42b20000 \<le> x_abs \<or> x_abs \<le> 0x32800000 then
        if get_unbiased_exponent x \<le> 101 then (f32_add (get_round s) 0x3f800000 x, s)
        else if 0xc2cff1b5 \<le> uintval x then
          if is_inf x then (0x00000000, s)
          else if is_nan x then (x, s)
          else if get_round s = FE_UPWARD then (get_val MIN_SUBNORMAL, s)
          else (0x00000000, set_errno ERANGE s)
        else if \<not> get_sign x \<and> 0x42b20000 \<le> uintval x then
          if uintval x < 0x7f800000 then
            if get_round s = FE_DOWNWARD \<or> get_round s = FE_TOWARDZERO
            then (get_val MAX_NORMAL, s)
            else (f32_add (get_round s) x FPBits_inf,
                  raise_if (f32_add_invalid x FPBits_inf) FE_INVALID (set_errno ERANGE s))
          else (f32_add (get_round s) x FPBits_inf,
                  raise_if (f32_add_invalid x FPBits_inf) FE_INVALID s)
        else expf_general T s x
      else expf_general T s x)"

section \<open>exp2f\<close>

definition EXP_M :: "double list" where
  "EXP_M =
     [0x3ff0000000000000, 0x3ff02c9a3e778061, 0x3ff059b0d3158574, 0x3ff0874518759bc8,
      0x3ff0b5586cf9890f, 0x3ff0e3ec32d3d1a2, 0x3ff11301d0125b51, 0x3ff1429aaea92de0,
      0x3ff172b83c7d517b, 0x3ff1a35beb6fcb75, 0x3ff1d4873168b9aa, 0x3ff2063b88628cd6,
      0x3ff2387a6e756238, 0x3ff26b4565e27cdd, 0x3ff29e9df51fdee1, 0x3ff2d285a6e4030b,
      0x3ff306fe0a31b715, 0x3ff33c08b26416ff, 0x3ff371a7373aa9cb, 0x3ff3a7db34e59ff7,
      0x3ff3dea64c123422, 0x3ff4160a21f72e2a, 0x3ff44e086061892d, 0x3ff486a2b5c13cd0,
      0x3ff4bfdad5362a27, 0x3ff4f9b2769d2ca7, 0x3ff5342b569d4f82, 0x3ff56f4736b527da,
      0x3ff5ab07dd485429, 0x3ff5e76f15ad2148, 0x3ff6247eb03a5585, 0x3ff6623882552225,
      0x3ff6a09e667f3bcd, 0x3ff6dfb23c651a2f, 0x3ff71f75e8ec5f74, 0x3ff75feb564267c9,
      0x3ff7a11473eb0187, 0x3ff7e2f336cf4e62, 0x3ff82589994cce13, 0x3ff868d99b4492ed,
      0x3ff8ace5422aa0db, 0x3ff8f1ae99157736, 0x3ff93737b0cdc5e5, 0x3ff97d829fde4e50,
      0x3ff9c49182a3f090, 0x3ffa0c667b5de565, 0x3ffa5503b23e255d, 0x3ffa9e6b5579fdbf,
      0x3ffae89f995ad3ad, 0x3ffb33a2b84f15fb, 0x3ffb7f76f2fb5e47, 0x3ffbcc1e904bc1d2,
      0x3ffc199bdd85529c, 0x3ffc67f12e57d14b, 0x3ffcb720dcef9069, 0x3ffd072d4a07897c,
      0x3ffd5818dcfba487, 0x3ffda9e603db3285, 0x3ffdfc97337b9b5f, 0x3ffe502ee78b3ff6,
      0x3ffea4afa2a490da, 0x3ffefa1bee615a27, 0x3fff50765b6e4540, 0x3fffa7c1819e90d8]"

definition exp2f_general :: "target \<Rightarrow> fenv \<Rightarrow> float \<Rightarrow> float \<times> fenv" where
  "exp2f_general T s x =
     (let rm = get_round s;
          x_hi = f32_to_int (f32_add rm (f32_mul rm x 0x42800000)
                   (if get_sign x then 0xbf000000 else 0x3f000000));
          e_hi = x_hi div 2 ^ 6 + 1023;
          exp_hi = (push_bit 52 (word_of_int e_hi) :: 64 word);
          exp_hi_mid = f64_mul rm exp_hi (EXP_M ! nat (x_hi mod 2 ^ 6));
          x1 = f32_sub rm x (f32_mul rm (int_to_f32 rm x_hi) 0x3c800000);
          xd = f32_to_f64 x1;
          exp_lo = polyeval (has_fma T) rm xd
                     [0x3ff0000000000000, 0x3fe62e42fefa2417, 0x3fcebfbdff82f809,
                      0x3fac6b0b92131c47, 0x3f83b2ab6fb568a3];
          result = f64_mul rm exp_hi_mid exp_lo
      in (f64_to_f32 rm result, s))"

definition exp2f :: "target \<Rightarrow> fenv \<Rightarrow> float \<Rightarrow> float \<times> fenv" where
  "exp2f T s x =
     (let x_u = uintval x;
          x_abs = x_u AND 0x7fffffff
      in
      if x_u = 0x3b429d37 \<and> get_round s = FE_TONEAREST then (0x3f804385, s)
      else if x_u = 0x3c02a9ad \<and> get_round s = FE_TONEAREST then (0x3f80b5a3, s)
      else if x_u = 0x3ca66e26 then
        (if get_round s = FE_TONEAREST \<or> get_round s = FE_UPWARD then (0x3f81d0b5, s)
         else (0x3f81d0b4, s))
      else if x_u = 0x3d92a282 then
        (if get_round s = FE_UPWARD then (0x3f868344, s) else (0x3f868343, s))
      else if x_u = 0xbcf3a937 \<and> get_round s = FE_TONEAREST then (0x3f7ac6b1, s)
      else if x_u = 0xb8d3d026 \<and> get_round s = FE_TONEAREST then (0x3f7ffb69, s)
      else if 0x43000000 \<le> x_abs \<or> x_abs \<le> 0x32800000 then
        if x_abs \<le> 0x32800000 then (f32_add (get_round s) 0x3f800000 x, s)
        else if \<not> get_sign x then
          if x_u < 0x7f800000 then
            if get_round s = FE_DOWNWARD \<or> get_round s = FE_TOWARDZERO
            then (get_val MAX_NORMAL, s)
            else (f32_add (get_round s) x FPBits_inf,
                  raise_if (f32_add_invalid x FPBits_inf) FE_INVALID (set_errno ERANGE s))
          else (f32_add (get_round s) x FPBits_inf,
                  raise_if (f32_add_invalid x FPBits_inf) FE_INVALID s)
        else if 0xc3160000 \<le> x_u then
          if is_inf x then (0x00000000, s)
          else if is_nan x then (x, s)
          else if get_round s = FE_UPWARD then (get_val MIN_SUBNORMAL, s)
          else (0x00000000, if f32_ne x 0x00000000 then set_errno ERANGE s else s)
        else exp2f_general T s x
      else exp2f_general T s x)"

section \<open>expm1f\<close>

definition expm1f_reduce :: "rounding \<Rightarrow> float \<Rightarrow> int \<times> double" where
  \<comment> \<open>the range reduction of the general path: the index \<open>x_hi\<close> and the residual \<open>xd\<close>
      after the boundary checks\<close>
  "expm1f_reduce rm x =
     (let x_hi = f32_to_int (f32_mul rm x 0x43000000);
          x1 = f32_sub rm x (f32_mul rm (int_to_f32 rm x_hi) 0x3c000000);
          xd = f32_to_f64 x1;
          (x_hi, xd) = (if f32_ge x1 0x3b800000
                        then (x_hi + 1, f64_sub rm xd 0x3f80000000000000) else (x_hi, xd));
          (x_hi, xd) = (if f32_lt x1 0xbb800000
                        then (x_hi - 1, f64_add rm xd 0x3f80000000000000) else (x_hi, xd))
      in (x_hi, xd))"

definition expm1f_general :: "target \<Rightarrow> fenv \<Rightarrow> float \<Rightarrow> float \<times> fenv" where
  "expm1f_general T s x =
     (let rm = get_round s;
          (x_hi, xd) = expm1f_reduce rm x;
          x_hi1 = x_hi + 104 * 2 ^ 7;
          exp_hi = EXP_M1 T (x_hi1 div 2 ^ 7);
          exp_mid = EXP_M2 T (x_hi1 mod 2 ^ 7);
          exp_hi_mid = f64_mul rm exp_hi exp_mid;
          exp_lo = polyeval (has_fma T) rm xd
                     [0x3ff0000000000000, 0x3ff0000000000000, 0x3fe0000000000000,
                      0x3fc5555555555555, 0x3fa55555555553a0, 0x3f81111111204dfc,
                      0x3f56c16cb2da593a, 0x3f29ff1648996d2e]
      in (f64_to_f32 rm (f64_fma rm exp_hi_mid exp_lo 0xbff0000000000000), s))"

definition expm1f :: "target \<Rightarrow> fenv \<Rightarrow> float \<Rightarrow> float \<times> fenv" where
  "expm1f T s x =
     (if 0xc18aa123 \<le> uintval x then
        if is_inf x then (0xbf800000, s)
        else if is_nan x then (x, s)
        else if get_round s = FE_UPWARD \<or> get_round s = FE_TOWARDZERO then (0xbf7fffff, s)
        else (0xbf800000, s)
      else if \<not> get_sign x \<and> 0x42b20000 \<le> uintval x then
        if uintval x < 0x7f800000 then
          if get_round s = FE_DOWNWARD \<or> get_round s = FE_TOWARDZERO
          then (get_val MAX_NORMAL, s)
          else (f32_add (get_round s) x FPBits_inf,
                  raise_if (f32_add_invalid x FPBits_inf) FE_INVALID (set_errno ERANGE s))
        else (f32_add (get_round s) x FPBits_inf,
                  raise_if (f32_add_invalid x FPBits_inf) FE_INVALID s)
      else
        let unbiased_exponent = int (get_unbiased_exponent x) in
        if unbiased_exponent < 123 then
          if unbiased_exponent < 102 then
            if uintval x = 0x80000000 then (x, s)
            else (f32_fma (get_round s) x x x, s)
          else
            let xd = f32_to_f64 x;
                xsq = f64_mul (get_round s) xd xd;
                r = polyeval (has_fma T) (get_round s) xd
                      [0x3fe0000000000000, 0x3fc55555555559ab, 0x3fa55555555551a7,
                       0x3f8111110f70f2a4, 0x3f56c16c17639e82, 0x3f2a02526febbea6,
                       0x3efa01dc40888fcd]
            in (f64_to_f32 (get_round s) (f64_fma (get_round s) r xsq xd), s)
        else if uintval x = 0xbdc1c6cb then
          (if get_round s = FE_TONEAREST \<or> get_round s = FE_DOWNWARD then (0xbdb8e442, s)
           else (0xbdb8e441, s))
        else expm1f_general T s x)"

text \<open>The second implementation of \<^verbatim>\<open>expm1f\<close> (\<^verbatim>\<open>src/unnamed/part_005\<close>).\<close>

definition expm1f_part_005_general :: "target \<Rightarrow> fenv \<Rightarrow> float \<Rightarrow> float \<times> fenv" where
  "expm1f_part_005_general T s x =
     (let rm = get_round s;
          x_hi = f32_to_int (f32_add rm (f32_mul rm x 0x43000000)
                   (if get_sign x then 0xbf000000 else 0x3f000000));
          x1 = f32_sub rm x (f32_mul rm (int_to_f32 rm x_hi) 0x3c000000);
          xd = f32_to_f64 x1;
          x_hi1 = x_hi + 104 * 2 ^ 7;
          exp_hi = EXP_M1 T (x_hi1 div 2 ^ 7);
          exp_mid = EXP_M2 T (x_hi1 mod 2 ^ 7);
          exp_hi_mid = f64_mul rm exp_hi exp_mid;
          exp_lo = polyeval (has_fma T) rm xd
                     [0x3ff0000000000000, 0x3feffffffffff777, 0x3fe000000000071c,
                      0x3fc555566668e5e7, 0x3fa55555555ef243]
      in (f64_to_f32 rm (multiply_add (has_fma T) rm exp_hi_mid exp_lo 0xbff0000000000000), s))"

definition expm1f_part_005 :: "target \<Rightarrow> fenv \<Rightarrow> float \<Rightarrow> float \<times> fenv" where
  "expm1f_part_005 T s x =
     (let x_u = uintval x;
          x_abs = x_u AND 0x7fffffff
      in
      if x_u = 0x3e35bec5 then
        (if get_round s = FE_TONEAREST \<or> get_round s = FE_UPWARD then (0x3e46df32, s)
         else (0x3e46df31, s))
      else
        let special =
          (if 0x418aa123 \<le> x_abs then
             if get_sign x then
               if is_inf x then Some (0xbf800000, s)
               else if is_nan x then Some (x, s)
               else if get_round s = FE_UPWARD \<or> get_round s = FE_TOWARDZERO
               then Some (0xbf7fffff, s)
               else Some (0xbf800000, s)
             else if 0x42b20000 \<le> uintval x then
               if uintval x < 0x7f800000 then
                 if get_round s = FE_DOWNWARD \<or> get_round s = FE_TOWARDZERO
                 then Some (get_val MAX_NORMAL, s)
                 else Some (f32_add (get_round s) x FPBits_inf,
                  raise_if (f32_add_invalid x FPBits_inf) FE_INVALID (set_errno ERANGE s))
               else Some (f32_add (get_round s) x FPBits_inf,
                  raise_if (f32_add_invalid x FPBits_inf) FE_INVALID s)
             else None
           else None)
        in case special of
          Some res \<Rightarrow> res
        | None \<Rightarrow>
            if x_abs < 0x3d800000 then
              if x_abs < 0x33000000 then
                if uintval x = 0x80000000 then (x, s)
                else (multiply_add_f32 (has_fma T) (get_round s) x x x, s)
              else
                let xd = f32_to_f64 x;
                    xsq = f64_mul (get_round s) xd xd;
                    r = polyeval (has_fma T) (get_round s) xd
                          [0x3fe0000000000000, 0x3fc55555555557dd, 0x3fa55555555552fa,
                           0x3f8111110fcd58b7, 0x3f56c16c1717660b, 0x3f2a0241f0006d62,
                           0x3efa01e3f8d3c060]
                in (f64_to_f32 (get_round s)
                      (multiply_add (has_fma T) (get_round s) r xsq xd), s)
            else expm1f_part_005_general T s x)"

section \<open>sincosf\<close>

definition N_EXCEPTS :: nat where "N_EXCEPTS = 10"

definition EXCEPT_INPUTS :: "32 word list" where
  "EXCEPT_INPUTS =
     [0x3b5637f5, 0x3fa7832a, 0x46199998, 0x55325019, 0x55cafb2a,
      0x5922aa80, 0x5aa4542c, 0x5f18b878, 0x6115cb11, 0x7beef5ef]"

definition EXCEPT_OUTPUTS_SIN :: "32 word list list" where
  "EXCEPT_OUTPUTS_SIN =
     [[0x3b5637dc, 1, 0, 0],
      [0x3f7741b5, 1, 0, 1],
      [0xbeb1fa5d, 0, 1, 0],
      [0xbf171adf, 0, 1, 1],
      [0xbf7e7a16, 0, 1, 1],
      [0xbf587521, 0, 1, 1],
      [0x3f5f5646, 1, 0, 0],
      [0x3dad60f6, 1, 0, 1],
      [0xbe7cc1e0, 0, 1, 1],
      [0xbf587d1b, 0, 1, 1]]"

definition EXCEPT_OUTPUTS_COS :: "32 word list list" where
  "EXCEPT_OUTPUTS_COS =
     [[0x3f7fffa6, 1, 0, 0],
      [0x3e84aabf, 1, 0, 1],
      [0xbf70090b, 0, 1, 0],
      [0x3f4ea5d2, 1, 0, 0],
      [0x3ddf11f3, 1, 0, 1],
      [0x3f08aebe, 1, 0, 1],
      [0x3efa40a4, 1, 0, 0],
      [0x3f7f14bb, 1, 0, 0],
      [0x3f78142e, 1, 0, 1],
      [0x3f08a21c, 1, 0, 0]]"

text \<open>The body of the loop over the exceptional values at index \<open>i\<close>: the pair
  \<open>(*sinp, *cosp)\<close> that it stores.\<close>

definition sincosf_except :: "rounding \<Rightarrow> float \<Rightarrow> nat \<Rightarrow> float \<times> float" where
  "sincosf_except rm x i =
     (let s = EXCEPT_OUTPUTS_SIN ! i ! 0;
          c = EXCEPT_OUTPUTS_COS ! i ! 0;
          x_sign = f32_lt x 0x00000000;
          (s, c) =
            (case rm of
               FE_UPWARD \<Rightarrow>
                 (s + (if x_sign then EXCEPT_OUTPUTS_SIN ! i ! 2 else EXCEPT_OUTPUTS_SIN ! i ! 1),
                  c + EXCEPT_OUTPUTS_COS ! i ! 1)
             | FE_DOWNWARD \<Rightarrow>
                 (s + (if x_sign then EXCEPT_OUTPUTS_SIN ! i ! 1 else EXCEPT_OUTPUTS_SIN ! i ! 2),
                  c + EXCEPT_OUTPUTS_COS ! i ! 2)
             | FE_TONEAREST \<Rightarrow>
                 (s + EXCEPT_OUTPUTS_SIN ! i ! 3, c + EXCEPT_OUTPUTS_COS ! i ! 3)
             | FE_TOWARDZERO \<Rightarrow> (s, c))
      in (if x_sign then f32_neg (get_val s) else get_val s, get_val c))"

function sincosf_loop :: "rounding \<Rightarrow> float \<Rightarrow> nat \<Rightarrow> (float \<times> float) option" where
  "sincosf_loop rm x i =
     (if i < N_EXCEPTS then
        if x AND 0x7fffffff = EXCEPT_INPUTS ! i then Some (sincosf_except rm x i)
        else sincosf_loop rm x (i + 1)
      else None)"
  by pat_completeness auto

termination
  by (relation "measure (\<lambda>(rm, x, i). N_EXCEPTS - i)") auto

definition sincosf :: "target \<Rightarrow> fenv \<Rightarrow> float \<Rightarrow> (float \<times> float) \<times> fenv" where
  \<comment> \<open>the result is \<open>((*sinp, *cosp), state)\<close>. For a signalling NaN the addition
      \<^verbatim>\<open>x + build_nan(..)\<close> raises \<^verbatim>\<open>FE_INVALID\<close>, as the conversion
      \<^verbatim>\<open>static_cast<double>(x)\<close> at the top does for the same arguments.\<close>
  "sincosf T s x =
     (let x_abs = uintval x AND 0x7fffffff;
          xd = f32_to_f64 x;
          rm = get_round s
      in
      if x_abs < 0x39800000 then
        if x_abs = 0 then ((x, 0x3f800000), s)
        else if has_fma T then
          ((multiply_add_f32 True rm x 0xb3000000 x,
            multiply_add_f32 True rm (get_val x_abs) 0xb3000000 0x3f800000), s)
        else
          ((f64_to_f32 rm (multiply_add False rm xd 0xbe60000000000000 xd),
            f64_to_f32 rm (multiply_add False rm (f32_to_f64 (get_val x_abs))
                             0xbe60000000000000 0x3ff0000000000000)), s)
      else if 0x7f800000 \<le> x_abs then
        let s1 = (if x_abs = 0x7f800000 then set_except FE_INVALID (set_errno EDOM s) else s);
            sinp = f32_add rm x (build_nan (push_bit (23 - 1) 1));
            s2 = raise_if (f32_add_invalid x (build_nan (push_bit (23 - 1) 1))) FE_INVALID s1
        in ((sinp, sinp), s2)
      else
        case sincosf_loop rm x 0 of
          Some res \<Rightarrow> (res, s)
        | None \<Rightarrow>
            let (sin_k, cos_k, sin_y, cosm1_y) = sincosf_eval T rm xd x_abs
            in ((f64_to_f32 rm (multiply_add (has_fma T) rm sin_y cos_k
                                  (multiply_add (has_fma T) rm cosm1_y sin_k sin_k)),
                 f64_to_f32 rm (multiply_add (has_fma T) rm sin_y (f64_neg sin_k)
                                  (multiply_add (has_fma T) rm cosm1_y cos_k cos_k))), s))"

section \<open>Reference instances\<close>

text \<open>A target and an environment for the concrete examples: tables whose entries are all
  \<open>1.0\<close>, a range reduction that returns zeros, and the default environment of a thread
  (round to nearest, no error, all flags clear).\<close>

definition unit_table :: "int \<Rightarrow> double" where
  "unit_table i = 0x3ff0000000000000"

definition zero_eval :: "rounding \<Rightarrow> double \<Rightarrow> 32 word \<Rightarrow> double \<times> double \<times> double \<times> double" where
  "zero_eval rm xd x_abs = (0, 0, 0, 0)"

definition target_no_fma :: target where
  "target_no_fma =
     \<lparr>has_fma = False, EXP_M1 = unit_table, EXP_M2 = unit_table, sincosf_eval = zero_eval\<rparr>"

definition target_fma :: target where
  "target_fma =
     \<lparr>has_fma = True, EXP_M1 = unit_table, EXP_M2 = unit_table, sincosf_eval = zero_eval\<rparr>"

definition default_fenv :: fenv where
  "default_fenv = \<lparr>rmode = FE_TONEAREST, errno = 0, excepts = {}\<rparr>"

section \<open>The tabulated results of sincosf\<close>

text \<open>The outputs that the exceptional-input table prescribes for row \<open>i\<close>, written from
  the specification: the round-toward-zero entry plus the increment selected by the
  rounding mode and, for the sine, by the sign of the input; the sine is negated for a
  negative input.\<close>

definition tabulated_sin :: "rounding \<Rightarrow> bool \<Rightarrow> nat \<Rightarrow> 32 word" where
  "tabulated_sin rm negative i =
     (let row = EXCEPT_OUTPUTS_SIN ! i;
          incr = (case rm of
                    FE_TOWARDZERO \<Rightarrow> 0
                  | FE_TONEAREST \<Rightarrow> row ! 3
                  | FE_UPWARD \<Rightarrow> (if negative then row ! 2 else row ! 1)
                  | FE_DOWNWARD \<Rightarrow> (if negative then row ! 1 else row ! 2));
          v = row ! 0 + incr
      in if negative then v XOR 0x80000000 else v)"

definition tabulated_cos :: "rounding \<Rightarrow> nat \<Rightarrow> 32 word" where
  "tabulated_cos rm i =
     (let row = EXCEPT_OUTPUTS_COS ! i;
          incr = (case rm of
                    FE_TOWARDZERO \<Rightarrow> 0
                  | FE_TONEAREST \<Rightarrow> row ! 3
                  | FE_UPWARD \<Rightarrow> row ! 1
                  | FE_DOWNWARD \<Rightarrow> row ! 2)
      in row ! 0 + incr)"

section \<open>The real value of a bit pattern\<close>

text \<open>The number that a finite bit pattern denotes, for stating bounds on operands and
  results. It plays no role in the computation.\<close>

definition dy_val :: "dyadic \<Rightarrow> real" where
  "dy_val v = of_int (fst v) * 2 powr of_int (snd v)"

definition valof :: "nat \<Rightarrow> nat \<Rightarrow> nat \<Rightarrow> real" where
  "valof ew mw n = dy_val (dy_of ew mw n)"

definition finite_of :: "nat \<Rightarrow> nat \<Rightarrow> nat \<Rightarrow> bool" where
  "finite_of ew mw n \<longleftrightarrow> n < 2 ^ (1 + ew + mw) \<and> expo_of ew mw n < 2 ^ ew - 1"

definition f32_val :: "float \<Rightarrow> real" where
  "f32_val x = valof 8 23 (unat x)"

definition f64_val :: "double \<Rightarrow> real" where
  "f64_val x = valof 11 52 (unat x)"

definition f32_finite :: "float \<Rightarrow> bool" where
  "f32_finite x \<longleftrightarrow> finite_of 8 23 (unat x)"

definition f64_finite :: "double \<Rightarrow> bool" where
  "f64_finite x \<longleftrightarrow> finite_of 11 52 (unat x)"

section \<open>Bit patterns and their fields\<close>

lemma unat_abs: "unat ((x :: 32 word) AND 0x7fffffff) = unat x mod 2147483648"
proof -
  have "(0x7fffffff :: 32 word) = mask 31" by (simp add: mask_eq_exp_minus_1)
  then have "x AND 0x7fffffff = take_bit 31 x" by (simp only: take_bit_eq_mask)
  then have "unat (x AND 0x7fffffff) = take_bit 31 (unat x)" by (simp only: unsigned_take_bit_eq)
  then show ?thesis by (simp add: take_bit_eq_mod)
qed

lemma unat_lt32: "unat (x :: 32 word) < 4294967296"
  using unsigned_less [of x, where 'a = nat] by simp

lemma abs_id: "(x :: 32 word) < 0x80000000 \<Longrightarrow> x AND 0x7fffffff = x"
  by (rule word_unat_eq_iff [THEN iffD2]) (simp add: unat_abs word_less_nat_alt)

lemma fin_pos_facts:
  assumes "n < 2139095040"
  shows "\<not> nan_of 8 23 n" "\<not> inf_of 8 23 n" "\<not> sign_of 8 23 n"
  using assms by (simp_all add: nan_of_def inf_of_def sign_of_def expo_of_def frac_of_def)

lemma add_inf: "n < 2139095040 \<Longrightarrow> fadd 8 23 rm n 2139095040 = 2139095040"
  by (simp add: fadd_def nan_of_def inf_of_def sign_of_def expo_of_def frac_of_def)

lemma f32_add_inf: "x < 0x7f800000 \<Longrightarrow> f32_add rm x FPBits_inf = 0x7f800000"
  by (simp add: f32_add_def FPBits_inf_def add_inf word_less_nat_alt)

lemma f32_add_inf_valid: "x < 0x7f800000 \<Longrightarrow> raise_if (f32_add_invalid x FPBits_inf) f s = s"
proof -
  assume "x < 0x7f800000"
  then have n: "unat x < 2139095040" by (simp add: word_less_nat_alt)
  have "\<not> nan_of 8 23 2139095040" by (simp add: nan_of_def expo_of_def frac_of_def)
  then show ?thesis
    using fin_pos_facts(1,2) [OF n]
    by (simp add: raise_if_def f32_add_invalid_def fadd_invalid_def snan_of_def FPBits_inf_def)
qed

lemma expo_ge: "0x42b20000 \<le> n \<Longrightarrow> n < 2139095040 \<Longrightarrow> 133 \<le> expo_of 8 23 n"
  by (simp add: expo_of_def) 

lemma expf_overflow_bits:
  assumes "0x42b20000 \<le> x" "x < 0x7f800000"
  shows "expf T s x =
     (if rmode s = FE_DOWNWARD \<or> rmode s = FE_TOWARDZERO then (0x7f7fffff, s)
      else (0x7f800000, s\<lparr>errno := ERANGE\<rparr>))"
proof -
  have lt: "x < 0x80000000" using assms(2) by (simp add: word_less_nat_alt)
  have 1: "x \<noteq> 0xc236bd8c" using assms(2) by auto
  have 2: "\<not> 0xc2cff1b5 \<le> x" using assms(2) by (simp add: word_le_nat_alt word_less_nat_alt)
  have n: "0x42b20000 \<le> unat x" "unat x < 2139095040"
    using assms by (simp_all add: word_le_nat_alt word_less_nat_alt)
  have 3: "\<not> get_unbiased_exponent x \<le> 101"
    using expo_ge [OF n] by (simp add: get_unbiased_exponent_def)
  have 4: "\<not> get_sign x" by (simp add: get_sign_def fin_pos_facts n)
  show ?thesis
    by (simp add: expf_def Let_def uintval_def abs_id [OF lt] assms 1 2 3 4 f32_add_inf f32_add_inf_valid
        get_round_def get_val_def MAX_NORMAL_def set_errno_def)
qed

lemma expo_of_small: "k < 2147483648 \<Longrightarrow> expo_of 8 23 k = k div 8388608"
  by (simp add: expo_of_def div_less_iff_less_mult)

lemma sign_of_small: "k < 2147483648 \<Longrightarrow> \<not> sign_of 8 23 k"
  by (simp add: sign_of_def)

lemma split_neg:
  assumes "2147483648 \<le> (n::nat)" "n < 4294967296"
  shows "n div 2147483648 = 1" "n mod 2147483648 = n - 2147483648"
proof -
  show d: "n div 2147483648 = 1" using assms by (intro div_nat_eqI) simp_all
  show "n mod 2147483648 = n - 2147483648"
    using d by (simp add: modulo_nat_def)
qed

lemma sign_of_big: "2147483648 \<le> n \<Longrightarrow> n < 4294967296 \<Longrightarrow> sign_of 8 23 n"
  by (simp add: sign_of_def split_neg)

lemma expo_of_mod: "expo_of 8 23 n = expo_of 8 23 (n mod 2147483648)"
proof -
  have "n div 8388608 mod 256 = (n mod (8388608 * 256)) div 8388608"
    by (simp only: mod_mult2_eq)
  also have "\<dots> = (n mod 2147483648) div 8388608" by simp
  finally show ?thesis
    using expo_of_small [of "n mod 2147483648"] by (simp add: expo_of_def)
qed

lemma frac_of_mod: "frac_of 23 n = frac_of 23 (n mod 2147483648)"
proof -
  have "(8388608::nat) dvd 2147483648" by simp
  then show ?thesis unfolding frac_of_def by (simp add: mod_mod_cancel)
qed

lemma nan_of_mod: "nan_of 8 23 n = nan_of 8 23 (n mod 2147483648)"
  unfolding nan_of_def using expo_of_mod [of n] frac_of_mod [of n] by simp

lemma inf_of_mod: "inf_of 8 23 n = inf_of 8 23 (n mod 2147483648)"
  unfolding inf_of_def using expo_of_mod [of n] frac_of_mod [of n] by simp


lemma neg_fin_facts:
  assumes "0x80000000 \<le> n" "n < 0xff800000"
  shows "\<not> nan_of 8 23 n" "\<not> inf_of 8 23 n" "sign_of 8 23 n"
proof -
  have m: "n mod 2147483648 = n - 2147483648" using assms by (simp add: split_neg)
  have "n - 2147483648 < 2139095040" using assms by simp
  then show "\<not> nan_of 8 23 n" "\<not> inf_of 8 23 n"
    using nan_of_mod [of n] inf_of_mod [of n] fin_pos_facts [of "n - 2147483648"] m by simp_all
  show "sign_of 8 23 n" using assms by (simp add: sign_of_big)
qed


lemma divmod_255:
  fixes k :: nat
  shows "k div 8388608 = 255 \<and> k mod 8388608 = 0 \<longleftrightarrow> k = 2139095040"
proof
  assume a: "k div 8388608 = 255 \<and> k mod 8388608 = 0"
  have "k = k div 8388608 * 8388608 + k mod 8388608" by simp
  then show "k = 2139095040" using a by simp
next
  assume "k = 2139095040"
  then show "k div 8388608 = 255 \<and> k mod 8388608 = 0" by simp
qed

lemma divmod_nan:
  fixes k :: nat
  assumes "k < 2147483648"
  shows "k div 8388608 = 255 \<and> k mod 8388608 \<noteq> 0 \<longleftrightarrow> 2139095040 < k"
proof
  assume a: "k div 8388608 = 255 \<and> k mod 8388608 \<noteq> 0"
  have "k = k div 8388608 * 8388608 + k mod 8388608" by simp
  then have "k = 2139095040 + k mod 8388608" using a by simp
  then show "2139095040 < k" using a by linarith
next
  assume b: "2139095040 < k"
  have d: "k div 8388608 = 255" using assms b by (intro div_nat_eqI) simp_all
  have "k = k div 8388608 * 8388608 + k mod 8388608" by simp
  then have "k = 2139095040 + k mod 8388608" using d by simp
  then have "k mod 8388608 \<noteq> 0" using b by linarith
  then show "k div 8388608 = 255 \<and> k mod 8388608 \<noteq> 0" using d by simp
qed

lemma get_unbiased_exponent_abs:
  "get_unbiased_exponent x = unat (x AND 0x7fffffff) div 8388608"
  unfolding get_unbiased_exponent_def unat_abs
  using expo_of_mod [of "unat x"] expo_of_small [of "unat x mod 2147483648"] by simp

lemma is_inf_abs: "is_inf x \<longleftrightarrow> x AND 0x7fffffff = 0x7f800000"
proof -
  have lt: "unat x mod 2147483648 < 2147483648" by simp
  have "inf_of 8 23 (unat x mod 2147483648) \<longleftrightarrow> unat x mod 2147483648 = 2139095040"
    unfolding inf_of_def frac_of_def expo_of_small [OF lt]
    using divmod_255 [of "unat x mod 2147483648"] by simp
  then show ?thesis
    unfolding is_inf_def using inf_of_mod [of "unat x"]
    by (simp add: word_unat_eq_iff unat_abs)
qed

lemma is_nan_abs: "is_nan x \<longleftrightarrow> 0x7f800000 < x AND 0x7fffffff"
proof -
  have lt: "unat x mod 2147483648 < 2147483648" by simp
  have "nan_of 8 23 (unat x mod 2147483648) \<longleftrightarrow> 2139095040 < unat x mod 2147483648"
    unfolding nan_of_def frac_of_def expo_of_small [OF lt]
    using divmod_nan [OF lt] by simp
  then show ?thesis
    unfolding is_nan_def using nan_of_mod [of "unat x"]
    by (simp add: word_less_nat_alt unat_abs)
qed

lemma get_sign_abs: "get_sign x \<longleftrightarrow> 0x80000000 \<le> x"
  unfolding get_sign_def word_le_nat_alt
  using sign_of_small [of "unat x"] sign_of_big [of "unat x"] unat_lt32 [of x]
  by (cases "unat x < 2147483648") simp_all

lemma neg_abs:
  assumes "0x80000000 \<le> (x :: 32 word)"
  shows "unat (x AND 0x7fffffff) = unat x - 2147483648"
  using assms unat_lt32 [of x] by (simp add: unat_abs word_le_nat_alt split_neg)

lemma expf_underflow_bits:
  assumes "0xc2cff1b5 \<le> x" "x < 0xff800000"
  shows "expf T s x =
     (if rmode s = FE_UPWARD then (0x00000001, s) else (0x00000000, s\<lparr>errno := ERANGE\<rparr>))"
proof -
  have n: "0xc2cff1b5 \<le> unat x" "unat x < 0xff800000"
    using assms by (simp_all add: word_le_nat_alt word_less_nat_alt)
  have ge: "0x80000000 \<le> x" using n by (simp add: word_le_nat_alt)
  have a: "unat (x AND 0x7fffffff) = unat x - 2147483648" by (rule neg_abs [OF ge])
  have 1: "x \<noteq> 0xc236bd8c" using assms(1) by auto
  have 2: "0x42b20000 \<le> x AND 0x7fffffff" using n by (simp add: word_le_nat_alt a)
  have 3: "\<not> get_unbiased_exponent x \<le> 101"
    using n by (simp add: get_unbiased_exponent_abs a less_eq_div_iff_mult_less_eq not_le)
  have 4: "\<not> is_inf x" "\<not> is_nan x"
    using n by (simp_all add: is_inf_abs is_nan_abs word_unat_eq_iff word_less_nat_alt a)
  show ?thesis
    by (simp add: expf_def Let_def uintval_def assms 1 2 3 4
        get_round_def get_val_def MIN_SUBNORMAL_def set_errno_def)
qed

lemma f32_ne_zero:
  assumes "0x80000000 < x" "x < 0xff800000"
  shows "f32_ne x 0x00000000"
proof -
  have n: "0x80000000 < unat x" "unat x < 0xff800000"
    using assms by (simp_all add: word_less_nat_alt)
  have f: "\<not> nan_of 8 23 (unat x)" "\<not> inf_of 8 23 (unat x)" "sign_of 8 23 (unat x)"
    using neg_fin_facts [of "unat x"] n by simp_all
  have z: "\<not> nan_of 8 23 0" "\<not> inf_of 8 23 0" "\<not> sign_of 8 23 0" "dy_of 8 23 0 = (0, -149)"
    by (simp_all add: nan_of_def inf_of_def sign_of_def expo_of_def frac_of_def dy_of_def emin_def)
  have m: "unat x mod 2147483648 = unat x - 2147483648" using n by (simp add: split_neg)
  have nz: "expo_of 8 23 (unat x) \<noteq> 0 \<or> frac_of 23 (unat x) \<noteq> 0"
  proof (rule ccontr)
    assume "\<not> ?thesis"
    then have e: "(unat x - 2147483648) div 8388608 = 0" "(unat x - 2147483648) mod 8388608 = 0"
      using expo_of_mod [of "unat x"] frac_of_mod [of "unat x"] m
        expo_of_small [of "unat x - 2147483648"] n
      by (simp_all add: frac_of_def)
    have "unat x - 2147483648 = (unat x - 2147483648) div 8388608 * 8388608 + (unat x - 2147483648) mod 8388608"
      by simp
    then have "unat x - 2147483648 = 0" using e by simp
    then show False using n by simp
  qed
  then have "fst (dy_of 8 23 (unat x)) < 0"
    using f by (auto simp add: dy_of_def Let_def)
  then have "dy_less (dy_of 8 23 (unat x)) (0, -149)"
    by (simp add: dy_less_def Let_def mult_less_0_iff)
  then show ?thesis
    by (simp add: f32_ne_def fless_def f z)
qed

lemma exp2f_underflow_bits:
  assumes "0xc3160000 \<le> x" "x < 0xff800000"
  shows "exp2f T s x =
     (if rmode s = FE_UPWARD then (0x00000001, s) else (0x00000000, s\<lparr>errno := ERANGE\<rparr>))"
proof -
  have n: "0xc3160000 \<le> unat x" "unat x < 0xff800000"
    using assms by (simp_all add: word_le_nat_alt word_less_nat_alt)
  have ge: "0x80000000 \<le> x" using n by (simp add: word_le_nat_alt)
  have a: "unat (x AND 0x7fffffff) = unat x - 2147483648" by (rule neg_abs [OF ge])
  have 1: "x \<noteq> 0x3b429d37" "x \<noteq> 0x3c02a9ad" "x \<noteq> 0x3ca66e26" "x \<noteq> 0x3d92a282"
    "x \<noteq> 0xbcf3a937" "x \<noteq> 0xb8d3d026"
    using assms(1) by auto
  have 2: "0x43000000 \<le> x AND 0x7fffffff" "\<not> x AND 0x7fffffff \<le> 0x32800000"
    using n by (simp_all add: word_le_nat_alt a)
  have 4: "\<not> is_inf x" "\<not> is_nan x" "get_sign x"
    using n by (simp_all add: is_inf_abs is_nan_abs get_sign_abs word_unat_eq_iff word_less_nat_alt word_le_nat_alt a)
  have 5: "f32_ne x 0x00000000"
    using n by (intro f32_ne_zero) (simp_all add: word_less_nat_alt)
  show ?thesis
    by (simp add: exp2f_def Let_def uintval_def assms 1 2 4 5
        get_round_def get_val_def MIN_SUBNORMAL_def set_errno_def)
qed

lemma sincosf_inf_pos:
  "sincosf T s 0x7f800000 = ((0x7fc00000, 0x7fc00000), s\<lparr>errno := EDOM, excepts := insert FE_INVALID (excepts s)\<rparr>)"
  by (simp add: sincosf_def Let_def uintval_def build_nan_def f32_add_def fadd_def nan_of_def inf_of_def
      expo_of_def frac_of_def quiet_of_def set_except_def set_errno_def
      raise_if_def f32_add_invalid_def fadd_invalid_def snan_of_def)

lemma sincosf_inf_neg:
  "sincosf T s 0xff800000 = ((0x7fc00000, 0x7fc00000), s\<lparr>errno := EDOM, excepts := insert FE_INVALID (excepts s)\<rparr>)"
  by (simp add: sincosf_def Let_def uintval_def build_nan_def f32_add_def fadd_def nan_of_def inf_of_def
      expo_of_def frac_of_def quiet_of_def set_except_def set_errno_def
      raise_if_def f32_add_invalid_def fadd_invalid_def snan_of_def)

lemma exp2f_exceptional:
  "exp2f T (s\<lparr>rmode := FE_TONEAREST\<rparr>) 0x3b429d37 = (0x3f804385, s\<lparr>rmode := FE_TONEAREST\<rparr>)"
  by (simp add: exp2f_def Let_def uintval_def get_round_def)

lemma expm1f_neg_zero:
  "expm1f T s 0x80000000 = (0x80000000, s) \<and> expm1f_part_005 T s 0x80000000 = (0x80000000, s)"
  by (simp add: expm1f_def expm1f_part_005_def Let_def uintval_def get_sign_def sign_of_def
      get_unbiased_exponent_def expo_of_def)

lemma quiet_of_nan:
  assumes "2139095040 < k" "k < 2147483648"
  shows "2139095040 < quiet_of 23 k \<and> quiet_of 23 k < 2147483648"
proof (cases "odd (k div 4194304)")
  case True
  then show ?thesis using assms by (simp add: quiet_of_def)
next
  case False
  have d: "k div 4194304 < 512" using assms by (simp add: div_less_iff_less_mult)
  have "k div 4194304 \<noteq> 511" using False by auto
  then have "k div 4194304 < 511" using d by simp
  then have "k div 4194304 + 1 < 512" by simp
  then have "(k div 4194304 + 1) * 4194304 \<le> 511 * 4194304" by simp
  moreover have "k < (k div 4194304 + 1) * 4194304"
    using div_less_iff_less_mult [of 4194304 k "k div 4194304 + 1"] by simp
  ultimately have "k < 2143289344" by simp
  then show ?thesis using assms False by (simp add: quiet_of_def)
qed

lemma quiet_of_hi:
  assumes "2147483648 \<le> k" "k < 4294967296"
  shows "quiet_of 23 k = quiet_of 23 (k - 2147483648) + 2147483648"
proof -
  define j where "j = k - 2147483648"
  have j: "k = j + 512 * 4194304" using assms(1) by (simp add: j_def)
  have "(j + 512 * 4194304) div 4194304 = j div 4194304 + 512" by simp
  then have "odd (k div 4194304) = odd (j div 4194304)" using j by simp
  then show ?thesis using j by (simp add: quiet_of_def)
qed

lemma f32_add_nan:
  assumes "is_nan x"
  shows "is_nan (f32_add rm x y)"
proof -
  have nx: "nan_of 8 23 (unat x)" using assms by (simp add: is_nan_def)
  then have r: "f32_add rm x y = word_of_nat (quiet_of 23 (unat x))"
    by (simp add: f32_add_def fadd_def)
  have a: "2139095040 < unat x mod 2147483648" "unat x mod 2147483648 < 2147483648"
    using assms by (simp_all add: is_nan_abs word_less_nat_alt unat_abs)
  show ?thesis
  proof (cases "unat x < 2147483648")
    case True
    then have q: "2139095040 < quiet_of 23 (unat x) \<and> quiet_of 23 (unat x) < 2147483648"
      using quiet_of_nan [of "unat x"] a by simp
    then have u: "unat (word_of_nat (quiet_of 23 (unat x)) :: 32 word) = quiet_of 23 (unat x)"
      by (simp add: unat_of_nat)
    show ?thesis using q unfolding r is_nan_abs word_less_nat_alt unat_abs u by simp
  next
    case False
    then have ge: "2147483648 \<le> unat x" by simp
    have m: "unat x mod 2147483648 = unat x - 2147483648"
      using ge unat_lt32 [of x] by (simp add: split_neg)
    have q: "2139095040 < quiet_of 23 (unat x - 2147483648) \<and> quiet_of 23 (unat x - 2147483648) < 2147483648"
      using quiet_of_nan [of "unat x - 2147483648"] a m by simp
    have e: "quiet_of 23 (unat x) = quiet_of 23 (unat x - 2147483648) + 2147483648"
      using quiet_of_hi [OF ge unat_lt32] .
    have lt: "quiet_of 23 (unat x) < 4294967296" using q e by simp
    have u: "unat (word_of_nat (quiet_of 23 (unat x)) :: 32 word) = quiet_of 23 (unat x)"
      using lt by (simp add: unat_of_nat)
    have "quiet_of 23 (unat x) mod 2147483648 = quiet_of 23 (unat x - 2147483648)"
      using q e by simp
    then show ?thesis using q unfolding r is_nan_abs word_less_nat_alt unat_abs u by simp
  qed
qed

lemma nan_add_invalid:
  assumes "is_nan x"
  shows "f32_add_invalid x 0x7fc00000 \<longleftrightarrow> f32_signaling x"
    and "f32_add_invalid x FPBits_inf \<longleftrightarrow> f32_signaling x"
proof -
  have nx: "nan_of 8 23 (unat x)" using assms by (simp add: is_nan_def)
  then have ni: "\<not> inf_of 8 23 (unat x)" by (simp add: nan_of_def inf_of_def)
  have q: "\<not> snan_of 8 23 2143289344" "\<not> snan_of 8 23 2139095040"
    by (simp_all add: snan_of_def nan_of_def expo_of_def frac_of_def)
  show "f32_add_invalid x 0x7fc00000 \<longleftrightarrow> f32_signaling x"
    using ni q by (simp add: f32_add_invalid_def fadd_invalid_def f32_signaling_def)
  show "f32_add_invalid x FPBits_inf \<longleftrightarrow> f32_signaling x"
    using ni q by (simp add: f32_add_invalid_def fadd_invalid_def f32_signaling_def FPBits_inf_def)
qed

lemma sincosf_nan_bits:
  assumes "is_nan x"
  shows "sincosf T s x =
     ((f32_add (rmode s) x 0x7fc00000, f32_add (rmode s) x 0x7fc00000),
      raise_if (f32_signaling x) FE_INVALID s)"
proof -
  have a: "0x7f800000 < x AND 0x7fffffff" using assms by (simp add: is_nan_abs)
  then have 1: "\<not> x AND 0x7fffffff < 0x39800000" "0x7f800000 \<le> x AND 0x7fffffff"
     "x AND 0x7fffffff \<noteq> 0x7f800000"
    by (simp_all add: word_less_nat_alt word_le_nat_alt word_unat_eq_iff)
  show ?thesis
    using nan_add_invalid(1) [OF assms]
    by (simp add: sincosf_def Let_def uintval_def 1 build_nan_def get_round_def)
qed

section \<open>The overflow and underflow boundaries\<close>

lemma exp2f_overflow_bits:
  assumes "0x43000000 \<le> x" "x < 0x7f800000"
  shows "exp2f T s x =
     (if rmode s = FE_DOWNWARD \<or> rmode s = FE_TOWARDZERO then (0x7f7fffff, s)
      else (0x7f800000, s\<lparr>errno := ERANGE\<rparr>))"
proof -
  have lt: "x < 0x80000000" using assms(2) by (simp add: word_less_nat_alt)
  have 1: "x \<noteq> 0x3b429d37" "x \<noteq> 0x3c02a9ad" "x \<noteq> 0x3ca66e26" "x \<noteq> 0x3d92a282"
    "x \<noteq> 0xbcf3a937" "x \<noteq> 0xb8d3d026"
    using assms by auto
  have 2: "\<not> x \<le> 0x32800000" using assms(1) by (simp add: word_le_nat_alt)
  have 4: "\<not> get_sign x" using lt by (simp add: get_sign_abs not_le)
  show ?thesis
    by (simp add: exp2f_def Let_def uintval_def abs_id [OF lt] assms 1 2 4 f32_add_inf f32_add_inf_valid
        get_round_def get_val_def MAX_NORMAL_def set_errno_def)
qed

lemma expm1f_overflow_bits:
  assumes "0x42b20000 \<le> x" "x < 0x7f800000"
  shows "expm1f T s x =
     (if rmode s = FE_DOWNWARD \<or> rmode s = FE_TOWARDZERO then (0x7f7fffff, s)
      else (0x7f800000, s\<lparr>errno := ERANGE\<rparr>))"
proof -
  have lt: "x < 0x80000000" using assms(2) by (simp add: word_less_nat_alt)
  have 2: "\<not> 0xc18aa123 \<le> x" using assms(2) by (simp add: word_le_nat_alt word_less_nat_alt)
  have 4: "\<not> get_sign x" using lt by (simp add: get_sign_abs not_le)
  show ?thesis
    by (simp add: expm1f_def Let_def uintval_def assms 2 4 f32_add_inf f32_add_inf_valid
        get_round_def get_val_def MAX_NORMAL_def set_errno_def)
qed

lemma expm1f_part_005_overflow_bits:
  assumes "0x42b20000 \<le> x" "x < 0x7f800000"
  shows "expm1f_part_005 T s x =
     (if rmode s = FE_DOWNWARD \<or> rmode s = FE_TOWARDZERO then (0x7f7fffff, s)
      else (0x7f800000, s\<lparr>errno := ERANGE\<rparr>))"
proof -
  have lt: "x < 0x80000000" using assms(2) by (simp add: word_less_nat_alt)
  have 1: "x \<noteq> 0x3e35bec5" using assms by auto
  have 2: "0x418aa123 \<le> x" using assms(1) by (simp add: word_le_nat_alt)
  have 4: "\<not> get_sign x" using lt by (simp add: get_sign_abs not_le)
  show ?thesis
    by (simp add: expm1f_part_005_def Let_def uintval_def abs_id [OF lt] assms 1 2 4 f32_add_inf f32_add_inf_valid
        get_round_def get_val_def MAX_NORMAL_def set_errno_def)
qed

text \<open>
  Claim C1 as stated fails for the directed mode \<^verbatim>\<open>FE_UPWARD\<close>: \<^verbatim>\<open>expf(89.0f)\<close> is
  \<open>+infinity\<close> with \<^verbatim>\<open>errno = ERANGE\<close> there, not \<^verbatim>\<open>MAX_NORMAL\<close>.
\<close>

theorem overflow_upward_counterexample:
  "fst (expf target_no_fma \<lparr>rmode = FE_UPWARD, errno = 0, excepts = {}\<rparr> 0x42b20000) = FPBits_inf \<and>
   fst (expf target_no_fma \<lparr>rmode = FE_UPWARD, errno = 0, excepts = {}\<rparr> 0x42b20000)
     \<noteq> get_val MAX_NORMAL \<and>
   errno (snd (expf target_no_fma \<lparr>rmode = FE_UPWARD, errno = 0, excepts = {}\<rparr> 0x42b20000))
     = ERANGE"
  by (simp add: expf_overflow_bits FPBits_inf_def get_val_def MAX_NORMAL_def)

section \<open>Special values of sincosf\<close>

text \<open>
  Claim C3 as stated fails for a signalling NaN: the addition \<^verbatim>\<open>x + build_nan(..)\<close> that
  \<^verbatim>\<open>sincosf\<close> executes for a NaN input raises \<^verbatim>\<open>FE_INVALID\<close> when \<open>x\<close> is the signalling
  NaN with bit pattern \<open>0x7f800001\<close>, so a flag is raised.
\<close>

theorem sincosf_signaling_nan_counterexample:
  "is_nan 0x7f800001 \<and>
   FE_INVALID \<in> excepts (snd (sincosf target_no_fma default_fenv 0x7f800001)) \<and>
   FE_INVALID \<notin> excepts default_fenv \<and>
   snd (sincosf target_no_fma default_fenv 0x7f800001) \<noteq> default_fenv"
proof -
  have n: "is_nan 0x7f800001" by (simp add: is_nan_abs)
  have g: "f32_signaling 0x7f800001"
    by (simp add: f32_signaling_def snan_of_def nan_of_def expo_of_def frac_of_def)
  show ?thesis
    using n g by (simp add: sincosf_nan_bits [OF n] raise_if_def default_fenv_def)
qed

text \<open>
  Claim C3, as amended. For an infinite input \<^verbatim>\<open>sincosf\<close> stores the quiet NaN
  \<^verbatim>\<open>build_nan(1 << 22)\<close> into both outputs, sets \<^verbatim>\<open>errno\<close> to \<^verbatim>\<open>EDOM\<close> and raises
  \<^verbatim>\<open>FE_INVALID\<close>. For a NaN input it stores a NaN into both outputs and leaves \<^verbatim>\<open>errno\<close>
  alone; a quiet NaN raises no flag and leaves the environment as it was, a signalling
  NaN raises \<^verbatim>\<open>FE_INVALID\<close> through the addition and changes nothing else.
\<close>

theorem sincosf_inf_nan:
  "(is_inf x \<longrightarrow>
      sincosf T s x =
        ((build_nan (push_bit 22 1), build_nan (push_bit 22 1)),
         set_except FE_INVALID (set_errno EDOM s)) \<and>
      is_nan (build_nan (push_bit 22 1)) \<and> bit (build_nan (push_bit 22 1)) 22) \<and>
   (is_nan x \<longrightarrow>
      is_nan (fst (fst (sincosf T s x))) \<and> is_nan (snd (fst (sincosf T s x))) \<and>
      errno (snd (sincosf T s x)) = errno s \<and>
      (\<not> f32_signaling x \<longrightarrow> snd (sincosf T s x) = s) \<and>
      (f32_signaling x \<longrightarrow>
         snd (sincosf T s x) = s\<lparr>excepts := insert FE_INVALID (excepts s)\<rparr>))"
proof (intro conjI impI)
  assume "is_inf x"
  then have "x AND 0x7fffffff = 0x7f800000" by (simp add: is_inf_abs)
  then have "unat x mod 2147483648 = 2139095040"
    using unat_abs [of x] by simp
  then have "unat x = 2139095040 \<or> unat x = 2139095040 + 2147483648"
    using unat_lt32 [of x] split_neg [of "unat x"]
    by (cases "unat x < 2147483648") simp_all
  then have "x = 0x7f800000 \<or> x = 0xff800000"
    by (simp add: word_unat_eq_iff)
  then show "sincosf T s x =
        ((build_nan (push_bit 22 1), build_nan (push_bit 22 1)),
         set_except FE_INVALID (set_errno EDOM s))"
    using sincosf_inf_pos [of T s] sincosf_inf_neg [of T s]
    by (auto simp add: build_nan_def set_except_def set_errno_def)
next
  show "is_nan (build_nan (push_bit 22 1))"
    by (simp add: build_nan_def is_nan_abs)
next
  show "bit (build_nan (push_bit 22 1)) 22"
    by (simp add: build_nan_def bit_simps)
next
  assume "is_nan x"
  then show "is_nan (fst (fst (sincosf T s x)))"
    by (simp add: sincosf_nan_bits f32_add_nan)
next
  assume "is_nan x"
  then show "is_nan (snd (fst (sincosf T s x)))"
    by (simp add: sincosf_nan_bits f32_add_nan)
next
  assume "is_nan x"
  then show "errno (snd (sincosf T s x)) = errno s"
    by (simp add: sincosf_nan_bits raise_if_def)
next
  assume "is_nan x" "\<not> f32_signaling x"
  then show "snd (sincosf T s x) = s"
    by (simp add: sincosf_nan_bits raise_if_def)
next
  assume "is_nan x" "f32_signaling x"
  then show "snd (sincosf T s x) = s\<lparr>excepts := insert FE_INVALID (excepts s)\<rparr>"
    by (simp add: sincosf_nan_bits raise_if_def)
qed

theorem sincosf_inf_nan_witness:
  "is_inf 0xff800000 \<and> is_nan 0x7fc00001 \<and> \<not> f32_signaling 0x7fc00001 \<and>
   is_nan 0xff800001 \<and> f32_signaling 0xff800001 \<and>
   sincosf target_no_fma default_fenv 0xff800000 =
     ((build_nan (push_bit 22 1), build_nan (push_bit 22 1)),
      set_except FE_INVALID (set_errno EDOM default_fenv)) \<and>
   is_nan (fst (fst (sincosf target_no_fma default_fenv 0x7fc00001))) \<and>
   snd (sincosf target_no_fma default_fenv 0x7fc00001) = default_fenv \<and>
   snd (sincosf target_no_fma default_fenv 0xff800001) =
     default_fenv\<lparr>excepts := insert FE_INVALID (excepts default_fenv)\<rparr>"
  using sincosf_inf_nan [of "0xff800000" target_no_fma default_fenv]
    sincosf_inf_nan [of "0x7fc00001" target_no_fma default_fenv]
    sincosf_inf_nan [of "0xff800001" target_no_fma default_fenv]
  by (simp add: is_inf_abs is_nan_abs f32_signaling_def snan_of_def nan_of_def expo_of_def
      frac_of_def)

section \<open>Exceptional and signed-zero inputs\<close>

text \<open>
  Claim C4. \<^verbatim>\<open>exp2f\<close> applied to the float with bit pattern \<open>0x3b429d37\<close> under
  round-to-nearest returns the float \<^verbatim>\<open>0x1.00870ap+0f\<close>, whose bit pattern is
  \<open>0x3f804385\<close> (mantissa \<open>0x804385 = 0x100870a / 2\<close> at exponent \<open>-23\<close>), and leaves
  the environment as it was.
\<close>

theorem exp2f_hard_case:
  "exp2f T (s\<lparr>rmode := FE_TONEAREST\<rparr>) 0x3b429d37 = (0x3f804385, s\<lparr>rmode := FE_TONEAREST\<rparr>) \<and>
   dy_of 8 23 (unat (0x3f804385 :: 32 word)) = (0x100870a div 2, - 23)"
  by (simp add: exp2f_exceptional dy_of_def expo_of_def frac_of_def sign_of_def emin_def)

text \<open>
  Claim C6. \<^verbatim>\<open>expm1f(-0.0f)\<close> returns \<open>-0.0f\<close>, bit pattern \<open>0x80000000\<close>, and leaves
  \<^verbatim>\<open>errno\<close> and the exception flags as they were. Both implementations do.
\<close>

theorem expm1f_signed_zero:
  "expm1f T s 0x80000000 = (0x80000000, s) \<and> expm1f_part_005 T s 0x80000000 = (0x80000000, s)"
  by (rule expm1f_neg_zero)


section \<open>The exceptional inputs of sincosf\<close>

declare sincosf_loop.simps [simp del]

lemma abs_cases:
  assumes "x AND 0x7fffffff = (c :: 32 word)" "c < 0x80000000"
  shows "x = c \<or> x = c + 0x80000000"
proof (cases "unat x < 2147483648")
  case True
  then have "x < 0x80000000" by (simp add: word_less_nat_alt)
  then show ?thesis using assms(1) abs_id [of x] by simp
next
  case False
  then have ge: "2147483648 \<le> unat x" by simp
  have c: "unat c < 2147483648" using assms(2) by (simp add: word_less_nat_alt)
  have "unat x - 2147483648 = unat c"
    using assms(1) unat_abs [of x] split_neg [OF ge unat_lt32] by simp
  then have "unat x = unat c + 2147483648" using ge by simp
  moreover have "unat (c + 0x80000000) = unat c + 2147483648"
    using c by (simp add: unat_word_ariths)
  ultimately show ?thesis by (simp add: word_unat_eq_iff)
qed

lemma less_ten:
  "i < (10::nat) \<Longrightarrow>
   i = 0 \<or> i = 1 \<or> i = 2 \<or> i = 3 \<or> i = 4 \<or> i = 5 \<or> i = 6 \<or> i = 7 \<or> i = 8 \<or> i = 9"
  by arith

lemma sincosf_loop_hit:
  "i < N_EXCEPTS \<Longrightarrow> x AND 0x7fffffff = EXCEPT_INPUTS ! i \<Longrightarrow>
   sincosf_loop rm x i = Some (sincosf_except rm x i)"
  by (simp add: sincosf_loop.simps [of rm x i])

lemma sincosf_loop_miss:
  "i < N_EXCEPTS \<Longrightarrow> x AND 0x7fffffff \<noteq> EXCEPT_INPUTS ! i \<Longrightarrow>
   sincosf_loop rm x i = sincosf_loop rm x (Suc i)"
  by (simp add: sincosf_loop.simps [of rm x i])

lemmas sincosf_table_simps = sincosf_loop_hit sincosf_loop_miss
  sincosf_def Let_def uintval_def get_round_def N_EXCEPTS_def EXCEPT_INPUTS_def
  sincosf_except_def EXCEPT_OUTPUTS_SIN_def EXCEPT_OUTPUTS_COS_def f32_lt_def fless_def
  nan_of_def inf_of_def sign_of_def expo_of_def frac_of_def dy_of_def dy_less_def emin_def
  get_val_def f32_neg_def tabulated_sin_def tabulated_cos_def get_sign_def

lemma sincosf_row_0_pos:
  "sincosf T s 0x3b5637f5 =
     ((tabulated_sin (rmode s) (get_sign 0x3b5637f5) 0, tabulated_cos (rmode s) 0), s)"
  by (cases "rmode s") (simp_all add: sincosf_table_simps)

lemma sincosf_row_0_neg:
  "sincosf T s 0xbb5637f5 =
     ((tabulated_sin (rmode s) (get_sign 0xbb5637f5) 0, tabulated_cos (rmode s) 0), s)"
  by (cases "rmode s") (simp_all add: sincosf_table_simps)

lemma sincosf_row_1_pos:
  "sincosf T s 0x3fa7832a =
     ((tabulated_sin (rmode s) (get_sign 0x3fa7832a) 1, tabulated_cos (rmode s) 1), s)"
  by (cases "rmode s") (simp_all add: sincosf_table_simps)

lemma sincosf_row_1_neg:
  "sincosf T s 0xbfa7832a =
     ((tabulated_sin (rmode s) (get_sign 0xbfa7832a) 1, tabulated_cos (rmode s) 1), s)"
  by (cases "rmode s") (simp_all add: sincosf_table_simps)

lemma sincosf_row_2_pos:
  "sincosf T s 0x46199998 =
     ((tabulated_sin (rmode s) (get_sign 0x46199998) 2, tabulated_cos (rmode s) 2), s)"
  by (cases "rmode s") (simp_all add: sincosf_table_simps)

lemma sincosf_row_2_neg:
  "sincosf T s 0xc6199998 =
     ((tabulated_sin (rmode s) (get_sign 0xc6199998) 2, tabulated_cos (rmode s) 2), s)"
  by (cases "rmode s") (simp_all add: sincosf_table_simps)

lemma sincosf_row_3_pos:
  "sincosf T s 0x55325019 =
     ((tabulated_sin (rmode s) (get_sign 0x55325019) 3, tabulated_cos (rmode s) 3), s)"
  by (cases "rmode s") (simp_all add: sincosf_table_simps)

lemma sincosf_row_3_neg:
  "sincosf T s 0xd5325019 =
     ((tabulated_sin (rmode s) (get_sign 0xd5325019) 3, tabulated_cos (rmode s) 3), s)"
  by (cases "rmode s") (simp_all add: sincosf_table_simps)

lemma sincosf_row_4_pos:
  "sincosf T s 0x55cafb2a =
     ((tabulated_sin (rmode s) (get_sign 0x55cafb2a) 4, tabulated_cos (rmode s) 4), s)"
  by (cases "rmode s") (simp_all add: sincosf_table_simps)

lemma sincosf_row_4_neg:
  "sincosf T s 0xd5cafb2a =
     ((tabulated_sin (rmode s) (get_sign 0xd5cafb2a) 4, tabulated_cos (rmode s) 4), s)"
  by (cases "rmode s") (simp_all add: sincosf_table_simps)

lemma sincosf_row_5_pos:
  "sincosf T s 0x5922aa80 =
     ((tabulated_sin (rmode s) (get_sign 0x5922aa80) 5, tabulated_cos (rmode s) 5), s)"
  by (cases "rmode s") (simp_all add: sincosf_table_simps)

lemma sincosf_row_5_neg:
  "sincosf T s 0xd922aa80 =
     ((tabulated_sin (rmode s) (get_sign 0xd922aa80) 5, tabulated_cos (rmode s) 5), s)"
  by (cases "rmode s") (simp_all add: sincosf_table_simps)

lemma sincosf_row_6_pos:
  "sincosf T s 0x5aa4542c =
     ((tabulated_sin (rmode s) (get_sign 0x5aa4542c) 6, tabulated_cos (rmode s) 6), s)"
  by (cases "rmode s") (simp_all add: sincosf_table_simps)

lemma sincosf_row_6_neg:
  "sincosf T s 0xdaa4542c =
     ((tabulated_sin (rmode s) (get_sign 0xdaa4542c) 6, tabulated_cos (rmode s) 6), s)"
  by (cases "rmode s") (simp_all add: sincosf_table_simps)

lemma sincosf_row_7_pos:
  "sincosf T s 0x5f18b878 =
     ((tabulated_sin (rmode s) (get_sign 0x5f18b878) 7, tabulated_cos (rmode s) 7), s)"
  by (cases "rmode s") (simp_all add: sincosf_table_simps)

lemma sincosf_row_7_neg:
  "sincosf T s 0xdf18b878 =
     ((tabulated_sin (rmode s) (get_sign 0xdf18b878) 7, tabulated_cos (rmode s) 7), s)"
  by (cases "rmode s") (simp_all add: sincosf_table_simps)

lemma sincosf_row_8_pos:
  "sincosf T s 0x6115cb11 =
     ((tabulated_sin (rmode s) (get_sign 0x6115cb11) 8, tabulated_cos (rmode s) 8), s)"
  by (cases "rmode s") (simp_all add: sincosf_table_simps)

lemma sincosf_row_8_neg:
  "sincosf T s 0xe115cb11 =
     ((tabulated_sin (rmode s) (get_sign 0xe115cb11) 8, tabulated_cos (rmode s) 8), s)"
  by (cases "rmode s") (simp_all add: sincosf_table_simps)

lemma sincosf_row_9_pos:
  "sincosf T s 0x7beef5ef =
     ((tabulated_sin (rmode s) (get_sign 0x7beef5ef) 9, tabulated_cos (rmode s) 9), s)"
  by (cases "rmode s") (simp_all add: sincosf_table_simps)

lemma sincosf_row_9_neg:
  "sincosf T s 0xfbeef5ef =
     ((tabulated_sin (rmode s) (get_sign 0xfbeef5ef) 9, tabulated_cos (rmode s) 9), s)"
  by (cases "rmode s") (simp_all add: sincosf_table_simps)

text \<open>
  Claim C7. For each of the ten inputs whose absolute-value bit pattern is an entry of
  \<^verbatim>\<open>EXCEPT_INPUTS\<close> and for each of the four rounding modes, \<^verbatim>\<open>sincosf\<close> stores the
  tabulated patterns: the round-toward-zero entry plus the increment selected by the mode
  and the sign, the sine negated for a negative input. The environment is unchanged.
\<close>

theorem sincosf_exceptional_inputs:
  "i < N_EXCEPTS \<Longrightarrow> x AND 0x7fffffff = EXCEPT_INPUTS ! i \<Longrightarrow>
   sincosf T s x = ((tabulated_sin (rmode s) (get_sign x) i, tabulated_cos (rmode s) i), s)"
proof -
  assume i: "i < N_EXCEPTS" and x: "x AND 0x7fffffff = EXCEPT_INPUTS ! i"
  have "i = 0 \<or> i = 1 \<or> i = 2 \<or> i = 3 \<or> i = 4 \<or> i = 5 \<or> i = 6 \<or> i = 7 \<or> i = 8 \<or> i = 9"
    using i less_ten [of i] by (simp add: N_EXCEPTS_def)
  then consider (0) "i = 0" | (1) "i = 1" | (2) "i = 2" | (3) "i = 3" | (4) "i = 4" | (5) "i = 5" | (6) "i = 6" | (7) "i = 7" | (8) "i = 8" | (9) "i = 9"
    by blast
  then show ?thesis
  proof cases
    case 0
    then have "x AND 0x7fffffff = 0x3b5637f5" using x by (simp add: EXCEPT_INPUTS_def)
    then have "x = 0x3b5637f5 \<or> x = 0xbb5637f5" using abs_cases [of x "0x3b5637f5"] by simp
    then show ?thesis
      using \<open>i = 0\<close> sincosf_row_0_pos [of T s] sincosf_row_0_neg [of T s] by auto
  next
    case 1
    then have "x AND 0x7fffffff = 0x3fa7832a" using x by (simp add: EXCEPT_INPUTS_def)
    then have "x = 0x3fa7832a \<or> x = 0xbfa7832a" using abs_cases [of x "0x3fa7832a"] by simp
    then show ?thesis
      using \<open>i = 1\<close> sincosf_row_1_pos [of T s] sincosf_row_1_neg [of T s] by auto
  next
    case 2
    then have "x AND 0x7fffffff = 0x46199998" using x by (simp add: EXCEPT_INPUTS_def)
    then have "x = 0x46199998 \<or> x = 0xc6199998" using abs_cases [of x "0x46199998"] by simp
    then show ?thesis
      using \<open>i = 2\<close> sincosf_row_2_pos [of T s] sincosf_row_2_neg [of T s] by auto
  next
    case 3
    then have "x AND 0x7fffffff = 0x55325019" using x by (simp add: EXCEPT_INPUTS_def)
    then have "x = 0x55325019 \<or> x = 0xd5325019" using abs_cases [of x "0x55325019"] by simp
    then show ?thesis
      using \<open>i = 3\<close> sincosf_row_3_pos [of T s] sincosf_row_3_neg [of T s] by auto
  next
    case 4
    then have "x AND 0x7fffffff = 0x55cafb2a" using x by (simp add: EXCEPT_INPUTS_def)
    then have "x = 0x55cafb2a \<or> x = 0xd5cafb2a" using abs_cases [of x "0x55cafb2a"] by simp
    then show ?thesis
      using \<open>i = 4\<close> sincosf_row_4_pos [of T s] sincosf_row_4_neg [of T s] by auto
  next
    case 5
    then have "x AND 0x7fffffff = 0x5922aa80" using x by (simp add: EXCEPT_INPUTS_def)
    then have "x = 0x5922aa80 \<or> x = 0xd922aa80" using abs_cases [of x "0x5922aa80"] by simp
    then show ?thesis
      using \<open>i = 5\<close> sincosf_row_5_pos [of T s] sincosf_row_5_neg [of T s] by auto
  next
    case 6
    then have "x AND 0x7fffffff = 0x5aa4542c" using x by (simp add: EXCEPT_INPUTS_def)
    then have "x = 0x5aa4542c \<or> x = 0xdaa4542c" using abs_cases [of x "0x5aa4542c"] by simp
    then show ?thesis
      using \<open>i = 6\<close> sincosf_row_6_pos [of T s] sincosf_row_6_neg [of T s] by auto
  next
    case 7
    then have "x AND 0x7fffffff = 0x5f18b878" using x by (simp add: EXCEPT_INPUTS_def)
    then have "x = 0x5f18b878 \<or> x = 0xdf18b878" using abs_cases [of x "0x5f18b878"] by simp
    then show ?thesis
      using \<open>i = 7\<close> sincosf_row_7_pos [of T s] sincosf_row_7_neg [of T s] by auto
  next
    case 8
    then have "x AND 0x7fffffff = 0x6115cb11" using x by (simp add: EXCEPT_INPUTS_def)
    then have "x = 0x6115cb11 \<or> x = 0xe115cb11" using abs_cases [of x "0x6115cb11"] by simp
    then show ?thesis
      using \<open>i = 8\<close> sincosf_row_8_pos [of T s] sincosf_row_8_neg [of T s] by auto
  next
    case 9
    then have "x AND 0x7fffffff = 0x7beef5ef" using x by (simp add: EXCEPT_INPUTS_def)
    then have "x = 0x7beef5ef \<or> x = 0xfbeef5ef" using abs_cases [of x "0x7beef5ef"] by simp
    then show ?thesis
      using \<open>i = 9\<close> sincosf_row_9_pos [of T s] sincosf_row_9_neg [of T s] by auto
  qed
qed

theorem sincosf_exceptional_inputs_witness:
  "3 < N_EXCEPTS \<and> (0xd5325019 :: 32 word) AND 0x7fffffff = EXCEPT_INPUTS ! 3 \<and>
   sincosf target_no_fma (default_fenv\<lparr>rmode := FE_UPWARD\<rparr>) 0xd5325019 =
     ((0x3f171ae0, 0x3f4ea5d3), default_fenv\<lparr>rmode := FE_UPWARD\<rparr>)"
  using sincosf_exceptional_inputs [of 3 "0xd5325019" target_no_fma "default_fenv\<lparr>rmode := FE_UPWARD\<rparr>"]
  by (simp add: N_EXCEPTS_def EXCEPT_INPUTS_def tabulated_sin_def tabulated_cos_def
      EXCEPT_OUTPUTS_SIN_def EXCEPT_OUTPUTS_COS_def get_sign_def sign_of_def)

section \<open>The two implementations of expm1f\<close>

lemma tiny_facts:
  assumes "x AND 0x7fffffff < 0x33000000"
  shows "\<not> 0xc18aa123 \<le> x" "\<not> 0x42b20000 \<le> x \<or> get_sign x" "get_unbiased_exponent x < 102"
    "x \<noteq> 0x3e35bec5"
proof -
  have a: "unat x mod 2147483648 < 855638016"
    using assms by (simp add: word_less_nat_alt unat_abs)
  show 1: "\<not> 0xc18aa123 \<le> x"
  proof
    assume "0xc18aa123 \<le> x"
    then have ge: "3247087907 \<le> unat x" by (simp add: word_le_nat_alt)
    then have "unat x mod 2147483648 = unat x - 2147483648"
      using split_neg [of "unat x"] unat_lt32 [of x] by simp
    then show False using a ge by simp
  qed
  show "\<not> 0x42b20000 \<le> x \<or> get_sign x"
  proof (cases "unat x < 2147483648")
    case True
    then have "unat x < 855638016" using a by simp
    then show ?thesis by (simp add: word_le_nat_alt)
  next
    case False
    then show ?thesis by (simp add: get_sign_abs word_le_nat_alt)
  qed
  show "get_unbiased_exponent x < 102"
    using a by (simp add: get_unbiased_exponent_abs unat_abs div_less_iff_less_mult)
  show "x \<noteq> 0x3e35bec5"
  proof
    assume "x = 0x3e35bec5"
    then show False using assms by simp
  qed
qed

lemma expm1f_tiny_bits:
  assumes "x AND 0x7fffffff < 0x33000000" "x \<noteq> 0x80000000"
  shows "expm1f T s x = (f32_fma (rmode s) x x x, s)"
  using tiny_facts [OF assms(1)] assms(2)
  by (auto simp add: expm1f_def Let_def uintval_def get_round_def)

lemma expm1f_part_005_tiny_bits:
  assumes "x AND 0x7fffffff < 0x33000000" "x \<noteq> 0x80000000"
  shows "expm1f_part_005 T s x = (multiply_add_f32 (has_fma T) (rmode s) x x x, s)"
proof -
  have 1: "\<not> 0x418aa123 \<le> x AND 0x7fffffff" "x AND 0x7fffffff < 0x3d800000"
    using assms(1) by (simp_all add: word_less_nat_alt word_le_nat_alt)
  show ?thesis
    using tiny_facts(4) [OF assms(1)] assms
    by (simp add: expm1f_part_005_def Let_def uintval_def get_round_def 1)
qed

lemma expm1f_minus_inf:
  "expm1f T s 0xff800000 = (0xbf800000, s) \<and> expm1f_part_005 T s 0xff800000 = (0xbf800000, s)"
  by (simp add: expm1f_def expm1f_part_005_def Let_def uintval_def is_inf_abs get_sign_abs)

lemma expm1f_nan_bits:
  assumes "is_nan x"
  shows "expm1f T s x = (if get_sign x then (x, s)
      else (f32_add (rmode s) x FPBits_inf, raise_if (f32_signaling x) FE_INVALID s))"
    and "expm1f_part_005 T s x = (if get_sign x then (x, s)
      else (f32_add (rmode s) x FPBits_inf, raise_if (f32_signaling x) FE_INVALID s))"
proof -
  have a: "2139095040 < unat x mod 2147483648"
    using assms by (simp add: is_nan_abs word_less_nat_alt unat_abs)
  have ni: "\<not> is_inf x" using assms by (simp add: is_inf_abs is_nan_abs)
  have b: "0x418aa123 \<le> x AND 0x7fffffff" using a by (simp add: word_le_nat_alt unat_abs)
  have e: "x \<noteq> 0x3e35bec5" using assms by (auto simp add: is_nan_abs)
  show "expm1f T s x = (if get_sign x then (x, s)
      else (f32_add (rmode s) x FPBits_inf, raise_if (f32_signaling x) FE_INVALID s))"
  proof (cases "get_sign x")
    case True
    then have ge: "2147483648 \<le> unat x" by (simp add: get_sign_abs word_le_nat_alt)
    then have "unat x mod 2147483648 = unat x - 2147483648"
      using split_neg [of "unat x"] unat_lt32 [of x] by simp
    then have "0xc18aa123 \<le> x" using a by (simp add: word_le_nat_alt)
    then show ?thesis using True ni assms by (simp add: expm1f_def uintval_def)
  next
    case False
    then have lt: "unat x < 2147483648" by (simp add: get_sign_abs word_le_nat_alt)
    then have c: "2139095040 < unat x" using a by simp
    then have "\<not> 0xc18aa123 \<le> x" "0x42b20000 \<le> x" "\<not> x < 0x7f800000"
      using lt by (simp_all add: word_le_nat_alt word_less_nat_alt)
    then show ?thesis
      using False nan_add_invalid(2) [OF assms] by (simp add: expm1f_def uintval_def get_round_def)
  qed
  show "expm1f_part_005 T s x = (if get_sign x then (x, s)
      else (f32_add (rmode s) x FPBits_inf, raise_if (f32_signaling x) FE_INVALID s))"
  proof (cases "get_sign x")
    case True
    then show ?thesis using ni assms b e by (simp add: expm1f_part_005_def uintval_def Let_def)
  next
    case False
    then have lt: "unat x < 2147483648" by (simp add: get_sign_abs word_le_nat_alt)
    then have c: "2139095040 < unat x" using a by simp
    then have "0x42b20000 \<le> x" "\<not> x < 0x7f800000"
      using lt by (simp_all add: word_le_nat_alt word_less_nat_alt)
    then show ?thesis using False b e nan_add_invalid(2) [OF assms]
      by (simp add: expm1f_part_005_def uintval_def get_round_def Let_def)
  qed
qed


lemma bitlen_numeral_step:
  "bitlen (numeral k) = bitlen (numeral k div 2) + 1"
  by (subst compute_bitlen) simp

lemma bitlen_one: "bitlen 1 = 1"
  by (subst compute_bitlen) simp

lemmas ieee_eval_simps =
  f32_add_def f32_mul_def f32_fma_def fadd_def fmul_def ffma_def
  nan_of_def inf_of_def zero_of_def sign_of_def expo_of_def frac_of_def dy_of_def dy_add_def dy_mul_def
  emin_def fround_def fround_dy_def round_away_def overflow_inf_def sign_bit_def inf_pat_def
  zero_sum_def Let_def bitlen_numeral_step bitlen_one

lemma tiny_fma: "f32_fma FE_TOWARDZERO 0x8d800000 0x8d800000 0x8d800000 = 0x8d7fffff"
  by (simp add: ieee_eval_simps)

lemma tiny_mul: "f32_mul FE_TOWARDZERO 0x8d800000 0x8d800000 = 0x00000000"
  by (simp add: ieee_eval_simps)

lemma tiny_add: "f32_add FE_TOWARDZERO 0x00000000 0x8d800000 = 0x8d800000"
  by (simp add: ieee_eval_simps)

lemma expm1f_agree_with_fma:
  assumes "has_fma T" "x AND 0x7fffffff < 0x33000000"
  shows "expm1f T s x = expm1f_part_005 T s x"
proof (cases "x = 0x80000000")
  case True
  then show ?thesis using expm1f_neg_zero [of T s] by simp
next
  case False
  then show ?thesis
    using assms by (simp add: expm1f_tiny_bits expm1f_part_005_tiny_bits multiply_add_f32_def)
qed

text \<open>
  Claim C10 holds for \<open>-infinity\<close>, the NaNs, \<open>-0.0f\<close> and the overflow range, and for
  \<open>|x| < 2^-25\<close> on a target with FMA instructions (the lemmas above). On a target without
  them the second implementation computes \<^verbatim>\<open>x * x + x\<close> with two roundings, although its
  comment says \<^verbatim>\<open>fma(x, x, x)\<close>: at \<open>x = -2^-100\<close> under \<^verbatim>\<open>FE_TOWARDZERO\<close> the product
  underflows to zero and the result is \<open>x\<close>, while the first implementation returns the
  float next to \<open>x\<close> toward zero.
\<close>

theorem expm1f_tiny_divergence:
  "expm1f target_no_fma \<lparr>rmode = FE_TOWARDZERO, errno = 0, excepts = {}\<rparr> 0x8d800000 =
     (0x8d7fffff, \<lparr>rmode = FE_TOWARDZERO, errno = 0, excepts = {}\<rparr>) \<and>
   expm1f_part_005 target_no_fma \<lparr>rmode = FE_TOWARDZERO, errno = 0, excepts = {}\<rparr> 0x8d800000 =
     (0x8d800000, \<lparr>rmode = FE_TOWARDZERO, errno = 0, excepts = {}\<rparr>)"
  by (simp add: expm1f_tiny_bits expm1f_part_005_tiny_bits multiply_add_f32_def target_no_fma_def
      tiny_fma tiny_mul tiny_add)

section \<open>Values of bit patterns and exact operations\<close>

lemma pow2_split:
  assumes "e \<le> e1"
  shows "(2::real) powr of_int e1 = 2 ^ nat (e1 - e) * 2 powr of_int e"
proof -
  have "(2::real) ^ nat (e1 - e) = 2 powr real (nat (e1 - e))"
    by (simp add: powr_realpow)
  also have "\<dots> = 2 powr (of_int e1 - of_int e)" using assms by simp
  finally show ?thesis by (simp add: powr_diff)
qed

lemma dy_val_add: "dy_val (dy_add a b) = dy_val a + dy_val b"
proof -
  obtain m1 e1 where a: "a = (m1, e1)" by (cases a)
  obtain m2 e2 where b: "b = (m2, e2)" by (cases b)
  define e where "e = min e1 e2"
  have p1: "(2::real) powr of_int e1 = 2 ^ nat (e1 - e) * 2 powr of_int e"
    by (rule pow2_split) (simp add: e_def)
  have p2: "(2::real) powr of_int e2 = 2 ^ nat (e2 - e) * 2 powr of_int e"
    by (rule pow2_split) (simp add: e_def)
  show ?thesis
    unfolding a b dy_val_def dy_add_def Let_def
    by (simp add: e_def [symmetric] p1 p2 algebra_simps)
qed

lemma dy_val_mul: "dy_val (dy_mul a b) = dy_val a * dy_val b"
  by (simp add: dy_val_def dy_mul_def powr_add)

lemma dy_less_iff: "dy_less a b \<longleftrightarrow> dy_val a < dy_val b"
proof -
  obtain m1 e1 where a: "a = (m1, e1)" by (cases a)
  obtain m2 e2 where b: "b = (m2, e2)" by (cases b)
  define e where "e = min e1 e2"
  have p1: "(2::real) powr of_int e1 = 2 ^ nat (e1 - e) * 2 powr of_int e"
    by (rule pow2_split) (simp add: e_def)
  have p2: "(2::real) powr of_int e2 = 2 ^ nat (e2 - e) * 2 powr of_int e"
    by (rule pow2_split) (simp add: e_def)
  have "dy_val a < dy_val b \<longleftrightarrow>
        real_of_int (m1 * 2 ^ nat (e1 - e)) * 2 powr of_int e < real_of_int (m2 * 2 ^ nat (e2 - e)) * 2 powr of_int e"
    unfolding a b dy_val_def by (simp add: p1 p2 algebra_simps)
  also have "\<dots> \<longleftrightarrow> real_of_int (m1 * 2 ^ nat (e1 - e)) < real_of_int (m2 * 2 ^ nat (e2 - e))"
    by (rule mult_less_cancel_right_pos) simp
  also have "\<dots> \<longleftrightarrow> m1 * 2 ^ nat (e1 - e) < m2 * 2 ^ nat (e2 - e)"
    by (rule of_int_less_iff)
  finally show ?thesis
    unfolding a b dy_less_def Let_def by (simp add: e_def [symmetric])
qed

lemma div_mod_decomp:
  fixes f d q :: nat
  assumes "f < d"
  shows "(q * d + f) div d = q" "(q * d + f) mod d = f"
  using assms by simp_all


lemma dy_of_enc:
  assumes t: "t < 2 ^ (mw + 1)" and k: "k = 0 \<or> 2 ^ mw \<le> t"
    and b: "k * 2 ^ mw + t < inf_pat ew mw"
  shows "dy_of ew mw (k * 2 ^ mw + t) = (int t, emin ew mw + int k)"
    and "expo_of ew mw (k * 2 ^ mw + t) < 2 ^ ew - 1"
    and "k * 2 ^ mw + t < 2 ^ (ew + mw)"
proof -
  let ?n = "k * 2 ^ mw + t"
  have lt: "?n < 2 ^ (ew + mw)"
  proof -
    have "inf_pat ew mw \<le> 2 ^ ew * 2 ^ mw" by (simp add: inf_pat_def)
    then show ?thesis using b by (simp add: power_add)
  qed
  show "?n < 2 ^ (ew + mw)" by (rule lt)
  have s: "\<not> sign_of ew mw ?n" using lt by (simp add: sign_of_def)
  show "dy_of ew mw ?n = (int t, emin ew mw + int k)"
   and "expo_of ew mw ?n < 2 ^ ew - 1"
  proof (atomize (full), cases "t < 2 ^ mw")
    case True
    then have k0: "k = 0" using k by auto
    have e: "expo_of ew mw ?n = 0" using True k0 by (simp add: expo_of_def)
    have f: "frac_of mw ?n = t" using True k0 by (simp add: frac_of_def)
    have "0 < inf_pat ew mw" using b by simp
    then have "(0::nat) < 2 ^ ew - 1" by (simp add: inf_pat_def)
    then show "dy_of ew mw ?n = (int t, emin ew mw + int k) \<and> expo_of ew mw ?n < 2 ^ ew - 1"
      using e f s k0 by (simp add: dy_of_def)
  next
    case False
    define f where "f = t - 2 ^ mw"
    have f: "f < 2 ^ mw" "t = 2 ^ mw + f" using False t by (simp_all add: f_def)
    have n: "?n = (k + 1) * 2 ^ mw + f" using f by (simp add: algebra_simps)
    have d: "?n div 2 ^ mw = k + 1" unfolding n using f(1) by (rule div_mod_decomp)
    have fr: "frac_of mw ?n = f" unfolding frac_of_def n using f(1) by (rule div_mod_decomp)
    have "(k + 1) * 2 ^ mw \<le> (k + 1) * 2 ^ mw + f" by (rule le_add1)
    also have "\<dots> < (2 ^ ew - 1) * 2 ^ mw" using b unfolding n inf_pat_def .
    finally have "(k + 1) * 2 ^ mw < (2 ^ ew - 1) * 2 ^ mw" .
    then have "0 < (2::nat) ^ mw \<and> k + 1 < 2 ^ ew - 1" by (simp only: mult_less_cancel2)
    then have k1: "k + 1 < 2 ^ ew - 1" by (rule conjunct2)
    then have e: "expo_of ew mw ?n = k + 1" unfolding expo_of_def d by simp
    show "dy_of ew mw ?n = (int t, emin ew mw + int k) \<and> expo_of ew mw ?n < 2 ^ ew - 1"
      using e fr s k1 f(2) by (simp add: dy_of_def)
  qed
qed

lemma real_bitlen:
  assumes "0 < a"
  shows "2 powr of_int (bitlen (int a) - 1) \<le> real a" "real a < 2 powr of_int (bitlen (int a))"
proof -
  have p: "0 < int a" using assms by simp
  from bitlen_bounds [OF p]
  have b: "2 ^ nat (bitlen (int a) - 1) \<le> int a" "int a < 2 ^ nat (bitlen (int a))" by simp_all
  have l: "1 \<le> bitlen (int a)" using p by (simp add: bitlen_alt_def)
  have "real_of_int (2 ^ nat (bitlen (int a) - 1)) \<le> real_of_int (int a)"
    using b(1) by (simp only: of_int_le_iff)
  then have "(2::real) ^ nat (bitlen (int a) - 1) \<le> real a" by simp
  moreover have "(2::real) ^ nat (bitlen (int a) - 1) = 2 powr real (nat (bitlen (int a) - 1))"
    by (simp add: powr_realpow)
  moreover have "real (nat (bitlen (int a) - 1)) = of_int (bitlen (int a) - 1)"
    using l by simp
  ultimately show "2 powr of_int (bitlen (int a) - 1) \<le> real a" by simp
  have "real_of_int (int a) < real_of_int (2 ^ nat (bitlen (int a)))"
    using b(2) by (simp only: of_int_less_iff)
  then have "real a < (2::real) ^ nat (bitlen (int a))" by simp
  moreover have "(2::real) ^ nat (bitlen (int a)) = 2 powr real (nat (bitlen (int a)))"
    by (simp add: powr_realpow)
  moreover have "real (nat (bitlen (int a))) = of_int (bitlen (int a))"
    using l by simp
  ultimately show "real a < 2 powr of_int (bitlen (int a))" by simp
qed

lemma real_pow2_nat: "0 \<le> i \<Longrightarrow> real ((2::nat) ^ nat i) = 2 powr of_int i"
  by (simp add: powr_realpow [symmetric])

lemma pow2_nat_powr: "0 \<le> i \<Longrightarrow> (2::real) ^ nat i = 2 powr of_int i"
  by (simp add: powr_realpow [symmetric])

lemma p2_mult: "i + j = k \<Longrightarrow> (2::real) powr of_int i * 2 powr of_int j = 2 powr of_int k"
  by (auto simp add: powr_add [symmetric])

lemma p2_div: "i - j = k \<Longrightarrow> (2::real) powr of_int i / 2 powr of_int j = 2 powr of_int k"
  by (auto simp add: powr_diff [symmetric])

lemma p2_le: "i \<le> j \<Longrightarrow> (2::real) powr of_int i \<le> 2 powr of_int j"
  by simp

lemma p2_less: "i < j \<Longrightarrow> (2::real) powr of_int i < 2 powr of_int j"
  by simp

lemma p2_lessD: "(2::real) powr of_int i < 2 powr of_int j \<Longrightarrow> i < j"
  by simp

lemma p2_leD: "(2::real) powr of_int i \<le> 2 powr of_int j \<Longrightarrow> i \<le> j"
  by simp

lemma nat_less_pow2D:
  assumes "t < 2 ^ n"
  shows "real t < 2 powr of_int (int n)"
proof -
  have "real t < real ((2::nat) ^ n)" using assms by (simp only: of_nat_less_iff)
  then show ?thesis by (simp add: powr_realpow)
qed

lemma nat_ge_pow2D:
  assumes "2 ^ n \<le> t"
  shows "2 powr of_int (int n) \<le> real t"
proof -
  have "real ((2::nat) ^ n) \<le> real t" using assms by (simp only: of_nat_le_iff)
  then show ?thesis by (simp add: powr_realpow)
qed

lemma int_less_pow2D:
  assumes "\<bar>m\<bar> < 2 ^ n"
  shows "real_of_int \<bar>m\<bar> < 2 powr of_int (int n)"
proof -
  have "real_of_int \<bar>m\<bar> < real_of_int (2 ^ n)" using assms by (simp only: of_int_less_iff)
  then show ?thesis by (simp add: powr_realpow)
qed

lemma nat_less_pow2I:
  assumes "real t < 2 powr of_int (int n)"
  shows "t < 2 ^ n"
proof -
  have "real t < real ((2::nat) ^ n)" using assms by (simp add: powr_realpow)
  then show ?thesis by (simp only: of_nat_less_iff)
qed

lemma nat_ge_pow2I:
  assumes "2 powr of_int (int n) \<le> real t"
  shows "2 ^ n \<le> t"
proof -
  have "real ((2::nat) ^ n) \<le> real t" using assms by (simp add: powr_realpow)
  then show ?thesis by (simp only: of_nat_le_iff)
qed



lemma fround_struct:
  fixes a ew mw :: nat and e :: int
  assumes a: "0 < a"
  defines "q \<equiv> max (emin ew mw) (e + bitlen (int a) - int (mw + 1))"
  defines "t \<equiv> (if q \<le> e then a * 2 ^ nat (e - q) else a div 2 ^ nat (q - e))"
  defines "r \<equiv> (if q \<le> e then 0 else a mod 2 ^ nat (q - e))"
  shows "t < 2 ^ (mw + 1)"
    and "emin ew mw < q \<Longrightarrow> 2 ^ mw \<le> t"
    and "real a * 2 powr of_int e = (real t + real r / 2 ^ nat (q - e)) * 2 powr of_int q"
    and "r < 2 ^ nat (q - e)"
proof -
  let ?L = "bitlen (int a)"
  note bl = real_bitlen [OF a]
  have q1: "e + ?L - int (mw + 1) \<le> q" by (simp add: q_def)
  show "r < 2 ^ nat (q - e)" by (simp add: r_def)
  show "real a * 2 powr of_int e = (real t + real r / 2 ^ nat (q - e)) * 2 powr of_int q"
  proof (cases "q \<le> e")
    case True
    then have "real t = real a * 2 powr of_int (e - q)"
      by (simp add: t_def pow2_nat_powr)
    then show ?thesis using True by (simp add: r_def powr_diff)
  next
    case False
    let ?d = "(2::nat) ^ nat (q - e)"
    have d: "real ?d = 2 powr of_int (q - e)" using False by (simp add: pow2_nat_powr)
    have "a div ?d * ?d + a mod ?d = a" by (rule div_mult_mod_eq)
    then have "a = t * ?d + r" using False by (simp only: t_def r_def if_False)
    then have "real a = real t * real ?d + real r" by (metis of_nat_add of_nat_mult)
    then have "real a = (real t + real r / real ?d) * real ?d" by (simp add: field_simps)
    then have "real a * 2 powr of_int e = (real t + real r / real ?d) * (real ?d * 2 powr of_int e)"
      by simp
    also have "real ?d * 2 powr of_int e = 2 powr of_int q"
      unfolding d by (rule p2_mult) simp
    finally show ?thesis by simp
  qed
  show "t < 2 ^ (mw + 1)"
  proof (cases "q \<le> e")
    case True
    then have "real t = real a * 2 powr of_int (e - q)"
      by (simp add: t_def pow2_nat_powr)
    also have "\<dots> < 2 powr of_int ?L * 2 powr of_int (e - q)"
      using bl(2) by simp
    also have "\<dots> = 2 powr of_int (?L + e - q)" by (rule p2_mult) simp
    also have "\<dots> \<le> 2 powr of_int (int (mw + 1))"
      by (rule p2_le) (use q1 in simp)
    finally show ?thesis by (rule nat_less_pow2I)
  next
    case False
    let ?d = "(2::nat) ^ nat (q - e)"
    have d: "real ?d = 2 powr of_int (q - e)" using False by (simp add: pow2_nat_powr)
    have "t * ?d \<le> a" using False by (simp add: t_def)
    then have "real t * real ?d \<le> real a" by (metis of_nat_le_iff of_nat_mult)
    also have "\<dots> < 2 powr of_int ?L" by (rule bl(2))
    finally have "real t * 2 powr of_int (q - e) < 2 powr of_int ?L" unfolding d .
    then have "real t < 2 powr of_int ?L / 2 powr of_int (q - e)"
      by (simp add: field_simps)
    also have "\<dots> = 2 powr of_int (?L + e - q)" by (rule p2_div) simp
    also have "\<dots> \<le> 2 powr of_int (int (mw + 1))"
      by (rule p2_le) (use q1 in simp)
    finally show ?thesis by (rule nat_less_pow2I)
  qed
  show "2 ^ mw \<le> t" if "emin ew mw < q"
  proof -
    have qe: "q = e + ?L - int (mw + 1)" using that by (simp add: q_def)
    show ?thesis
    proof (cases "q \<le> e")
      case True
      then have rt: "real t = real a * 2 powr of_int (e - q)"
        by (simp add: t_def pow2_nat_powr)
      have "(2::real) powr of_int (int mw) = 2 powr of_int (?L - 1) * 2 powr of_int (e - q)"
        by (rule p2_mult [symmetric]) (simp add: qe)
      also have "\<dots> \<le> real a * 2 powr of_int (e - q)"
        by (rule mult_right_mono [OF bl(1)]) simp
      also have "\<dots> = real t" by (rule rt [symmetric])
      finally have "2 powr of_int (int mw) \<le> real t" .
      then show ?thesis by (rule nat_ge_pow2I)
    next
      case False
      let ?d = "(2::nat) ^ nat (q - e)"
      have "0 \<le> ?L - 1" using a by (simp add: bitlen_alt_def)
      have "real ((2::nat) ^ mw * ?d) = 2 powr of_int (int mw) * 2 powr of_int (q - e)"
        using False by (simp add: pow2_nat_powr powr_realpow)
      also have "\<dots> = 2 powr of_int (?L - 1)" by (rule p2_mult) (simp add: qe)
      also have "\<dots> \<le> real a" by (rule bl(1))
      finally have "2 ^ mw * ?d \<le> a" by (simp only: of_nat_le_iff)
      then have "2 ^ mw \<le> a div ?d" by (simp add: less_eq_div_iff_mult_less_eq)
      then show ?thesis using False by (simp add: t_def)
    qed
  qed
qed

lemma fields_sign_bit:
  assumes "p < 2 ^ (ew + mw)"
  shows "expo_of ew mw (2 ^ (ew + mw) + p) = expo_of ew mw p"
    and "frac_of mw (2 ^ (ew + mw) + p) = frac_of mw p"
    and "sign_of ew mw (2 ^ (ew + mw) + p)"
    and "\<not> sign_of ew mw p"
proof -
  have s: "(2::nat) ^ (ew + mw) + p = 2 ^ ew * 2 ^ mw + p" by (simp add: power_add)
  have "(2 ^ ew * 2 ^ mw + p) div 2 ^ mw = 2 ^ ew + p div 2 ^ mw" by simp
  then show "expo_of ew mw (2 ^ (ew + mw) + p) = expo_of ew mw p"
    unfolding expo_of_def s by simp
  show "frac_of mw (2 ^ (ew + mw) + p) = frac_of mw p"
    unfolding frac_of_def s by simp
  have "(2 ^ (ew + mw) + p) div 2 ^ (ew + mw) = 1" using assms by simp
  then show "sign_of ew mw (2 ^ (ew + mw) + p)" unfolding sign_of_def by simp
  show "\<not> sign_of ew mw p" using assms by (simp add: sign_of_def)
qed

lemma dy_of_sign_bit:
  assumes "p < 2 ^ (ew + mw)"
  shows "dy_of ew mw (sign_bit ew mw neg + p) =
         ((if neg then - fst (dy_of ew mw p) else fst (dy_of ew mw p)), snd (dy_of ew mw p))"
  using fields_sign_bit [OF assms]
  by (simp add: dy_of_def sign_bit_def Let_def)

lemma finite_sign_bit:
  assumes "p < 2 ^ (ew + mw)" "expo_of ew mw p < 2 ^ ew - 1"
  shows "finite_of ew mw (sign_bit ew mw neg + p)"
  using fields_sign_bit [OF assms(1)] assms
  by (simp add: finite_of_def sign_bit_def)

lemma val_enc:
  assumes t: "t \<le> 2 ^ (mw + 1)" and k: "k = 0 \<or> 2 ^ mw \<le> t"
    and b: "k * 2 ^ mw + t < inf_pat ew mw"
  shows "valof ew mw (sign_bit ew mw neg + (k * 2 ^ mw + t)) =
           (if neg then - 1 else 1) * (real t * 2 powr of_int (emin ew mw + int k))"
    and "finite_of ew mw (sign_bit ew mw neg + (k * 2 ^ mw + t))"
    and "sign_of ew mw (sign_bit ew mw neg + (k * 2 ^ mw + t)) = neg"
proof -
  let ?p = "k * 2 ^ mw + t"
  have main: "dy_val (dy_of ew mw ?p) = real t * 2 powr of_int (emin ew mw + int k) \<and>
     expo_of ew mw ?p < 2 ^ ew - 1 \<and> ?p < 2 ^ (ew + mw)"
  proof (cases "t < 2 ^ (mw + 1)")
    case True
    from dy_of_enc [OF True k b] show ?thesis by (simp add: dy_val_def)
  next
    case False
    then have te: "t = 2 ^ (mw + 1)" using t by simp
    have p: "?p = (k + 1) * 2 ^ mw + 2 ^ mw" by (simp add: te)
    have 1: "(2::nat) ^ mw < 2 ^ (mw + 1)" by simp
    have 2: "k + 1 = 0 \<or> (2::nat) ^ mw \<le> 2 ^ mw" by simp
    have 3: "(k + 1) * 2 ^ mw + 2 ^ mw < inf_pat ew mw" using b p by simp
    from dy_of_enc [OF 1 2 3]
    have d: "dy_of ew mw ?p = (int (2 ^ mw), emin ew mw + int (k + 1))"
      "expo_of ew mw ?p < 2 ^ ew - 1" "?p < 2 ^ (ew + mw)"
      unfolding p by simp_all
    have "(2::real) powr of_int (emin ew mw + int (k + 1)) = 2 powr of_int (emin ew mw + int k) * 2 powr of_int 1"
      by (rule p2_mult [symmetric]) simp
    then have "real (2 ^ mw) * 2 powr of_int (emin ew mw + int (k + 1)) =
          real t * 2 powr of_int (emin ew mw + int k)"
      by (simp add: te)
    then show ?thesis using d by (simp add: dy_val_def)
  qed
  then have lt: "?p < 2 ^ (ew + mw)" by simp
  show "valof ew mw (sign_bit ew mw neg + ?p) =
           (if neg then - 1 else 1) * (real t * 2 powr of_int (emin ew mw + int k))"
    using main unfolding valof_def dy_of_sign_bit [OF lt] dy_val_def by simp
  show "finite_of ew mw (sign_bit ew mw neg + ?p)"
    using main by (intro finite_sign_bit) simp_all
  show "sign_of ew mw (sign_bit ew mw neg + ?p) = neg"
    using fields_sign_bit [OF lt] by (simp add: sign_bit_def)
qed

lemma fround_unfold:
  assumes "0 < a"
    and "q = max (emin ew mw) (e + bitlen (int a) - int (mw + 1))"
    and "t = (if q \<le> e then a * 2 ^ nat (e - q) else a div 2 ^ nat (q - e))"
    and "r = (if q \<le> e then 0 else a mod 2 ^ nat (q - e))"
    and "t' = (if round_away rm neg t r (2 ^ nat (q - e)) then t + 1 else t)"
    and "k = nat (q - emin ew mw)"
  shows "fround ew mw rm neg a e =
     sign_bit ew mw neg +
       (if inf_pat ew mw \<le> k * 2 ^ mw + t'
        then (if overflow_inf rm neg then inf_pat ew mw else inf_pat ew mw - 1)
        else k * 2 ^ mw + t')"
  unfolding fround_def Let_def assms(2-6) using assms(1) by simp

lemma fround_result:
  fixes a ew mw :: nat and e :: int and rm :: rounding and neg :: bool
  assumes ew: "2 \<le> ew" and a: "0 < a"
    and noovf: "real a * 2 powr of_int e < 2 powr of_int (emin ew mw + int mw + 2 ^ ew - 3)"
  defines "q \<equiv> max (emin ew mw) (e + bitlen (int a) - int (mw + 1))"
  defines "t \<equiv> (if q \<le> e then a * 2 ^ nat (e - q) else a div 2 ^ nat (q - e))"
  defines "r \<equiv> (if q \<le> e then 0 else a mod 2 ^ nat (q - e))"
  defines "t' \<equiv> (if round_away rm neg t r (2 ^ nat (q - e)) then t + 1 else t)"
  shows "valof ew mw (fround ew mw rm neg a e) =
           (if neg then - 1 else 1) * (real t' * 2 powr of_int q)"
    and "finite_of ew mw (fround ew mw rm neg a e)"
    and "sign_of ew mw (fround ew mw rm neg a e) = neg"
proof -
  note st = fround_struct [OF a, where ew = ew and mw = mw and e = e, folded q_def, folded t_def r_def]
  define k where "k = nat (q - emin ew mw)"
  have qk: "q = emin ew mw + int k" by (simp add: k_def q_def)
  have t'1: "t' \<le> 2 ^ (mw + 1)" using st(1) by (simp add: t'_def)
  have t't: "t \<le> t'" by (simp add: t'_def)
  have k0: "k = 0 \<or> 2 ^ mw \<le> t'"
  proof (cases "emin ew mw < q")
    case True
    then show ?thesis using st(2) t't by simp
  next
    case False
    then show ?thesis by (simp add: k_def)
  qed
  have e4: "(4::nat) \<le> 2 ^ ew"
  proof -
    have "(2::nat) ^ 2 \<le> 2 ^ ew" using ew by (intro power_increasing) simp_all
    then show ?thesis by simp
  qed
  have pat: "k * 2 ^ mw + t' < inf_pat ew mw"
  proof (cases "emin ew mw < q")
    case False
    then have kz: "k = 0" by (simp add: k_def)
    have "(2::nat) < 2 ^ ew - 1" using e4 by simp
    then have "0 < (2::nat) ^ mw \<and> (2::nat) < 2 ^ ew - 1" by simp
    then have "2 * (2::nat) ^ mw < (2 ^ ew - 1) * 2 ^ mw" by (simp only: mult_less_cancel2)
    moreover have "t' \<le> 2 * 2 ^ mw" using t'1 by simp
    ultimately have "t' < (2 ^ ew - 1) * 2 ^ mw" by (rule le_less_trans [rotated])
    then show ?thesis unfolding inf_pat_def kz by simp
  next
    case True
    have "(2::real) powr of_int (int mw + q) = 2 powr of_int (int mw) * 2 powr of_int q"
      by (rule p2_mult [symmetric]) simp
    also have "\<dots> \<le> real t * 2 powr of_int q"
    proof (rule mult_right_mono)
      have "real ((2::nat) ^ mw) \<le> real t" using st(2) [OF True] by (simp only: of_nat_le_iff)
      then show "2 powr of_int (int mw) \<le> real t" by (simp add: powr_realpow)
    qed simp
    also have "\<dots> \<le> (real t + real r / 2 ^ nat (q - e)) * 2 powr of_int q"
      by (rule mult_right_mono) simp_all
    also have "\<dots> = real a * 2 powr of_int e" by (rule st(3) [symmetric])
    also have "\<dots> < 2 powr of_int (emin ew mw + int mw + 2 ^ ew - 3)" by (rule noovf)
    finally have "int mw + q < emin ew mw + int mw + 2 ^ ew - 3" by (rule p2_lessD)
    then have "int k < 2 ^ ew - 3" by (simp add: qk)
    then have "int (k + 3) < int (2 ^ ew)" by simp
    then have "k + 3 < 2 ^ ew" by (simp only: of_nat_less_iff)
    then have "k + 2 \<le> 2 ^ ew - 2" by simp
    then have A: "(k + 2) * 2 ^ mw \<le> (2 ^ ew - 2) * 2 ^ mw" by (rule mult_le_mono1)
    have "0 < (2::nat) ^ mw \<and> (2::nat) ^ ew - 2 < 2 ^ ew - 1" using e4 by simp
    then have B: "(2 ^ ew - 2) * 2 ^ mw < (2 ^ ew - 1) * (2::nat) ^ mw"
      by (simp only: mult_less_cancel2)
    have C: "k * 2 ^ mw + t' \<le> (k + 2) * 2 ^ mw" using t'1 by (simp add: algebra_simps)
    from C A have "k * 2 ^ mw + t' \<le> (2 ^ ew - 2) * 2 ^ mw" by (rule le_trans)
    from this B have "k * 2 ^ mw + t' < (2 ^ ew - 1) * 2 ^ mw" by (rule le_less_trans)
    then show ?thesis unfolding inf_pat_def .
  qed
  have qeq: "q = max (emin ew mw) (e + bitlen (int a) - int (mw + 1))"
    unfolding q_def by (rule refl)
  have teq: "t = (if q \<le> e then a * 2 ^ nat (e - q) else a div 2 ^ nat (q - e))"
    unfolding t_def by (rule refl)
  have req: "r = (if q \<le> e then 0 else a mod 2 ^ nat (q - e))"
    unfolding r_def by (rule refl)
  have t'eq: "t' = (if round_away rm neg t r (2 ^ nat (q - e)) then t + 1 else t)"
    unfolding t'_def by (rule refl)
  have fr: "fround ew mw rm neg a e = sign_bit ew mw neg + (k * 2 ^ mw + t')"
    unfolding fround_unfold [OF a qeq teq req t'eq k_def] using pat by simp
  show "valof ew mw (fround ew mw rm neg a e) =
           (if neg then - 1 else 1) * (real t' * 2 powr of_int q)"
    unfolding fr qk by (rule val_enc [OF t'1 k0 pat])
  show "finite_of ew mw (fround ew mw rm neg a e)"
    unfolding fr by (rule val_enc [OF t'1 k0 pat])
  show "sign_of ew mw (fround ew mw rm neg a e) = neg"
    unfolding fr by (rule val_enc [OF t'1 k0 pat])
qed

lemma round_away_exact: "\<not> round_away rm neg t 0 d"
  by (simp add: round_away_def)

lemma fround_exact:
  fixes a ew mw T :: nat and e Q :: int
  assumes ew: "2 \<le> ew" and a: "0 < a"
    and rep: "real a * 2 powr of_int e = real T * 2 powr of_int Q"
    and T: "T < 2 ^ (mw + 1)" and Q: "emin ew mw \<le> Q"
    and noovf: "real a * 2 powr of_int e < 2 powr of_int (emin ew mw + int mw + 2 ^ ew - 3)"
  shows "valof ew mw (fround ew mw rm neg a e) =
           (if neg then - 1 else 1) * (real a * 2 powr of_int e)"
    and "finite_of ew mw (fround ew mw rm neg a e)"
    and "sign_of ew mw (fround ew mw rm neg a e) = neg"
proof -
  define q where "q = max (emin ew mw) (e + bitlen (int a) - int (mw + 1))"
  define t where "t = (if q \<le> e then a * 2 ^ nat (e - q) else a div 2 ^ nat (q - e))"
  define r where "r = (if q \<le> e then 0 else a mod 2 ^ nat (q - e))"
  note st = fround_struct [OF a, where ew = ew and mw = mw and e = e, folded q_def, folded t_def r_def]
  note res = fround_result [OF ew a noovf, where rm = rm and neg = neg, folded q_def, folded t_def r_def]
  note bl = real_bitlen [OF a]
  have r0: "r = 0"
  proof (cases "q \<le> e")
    case True
    then show ?thesis by (simp add: r_def)
  next
    case False
    have "(2::real) powr of_int (bitlen (int a) - 1 + e) = 2 powr of_int (bitlen (int a) - 1) * 2 powr of_int e"
      by (rule p2_mult [symmetric]) simp
    also have "\<dots> \<le> real a * 2 powr of_int e"
      by (rule mult_right_mono [OF bl(1)]) simp
    also have "\<dots> = real T * 2 powr of_int Q" by (rule rep)
    also have "\<dots> < 2 powr of_int (int (mw + 1)) * 2 powr of_int Q"
      by (rule mult_strict_right_mono [OF nat_less_pow2D [OF T]]) simp
    also have "\<dots> = 2 powr of_int (int (mw + 1) + Q)" by (rule p2_mult) simp
    finally have "bitlen (int a) - 1 + e < int (mw + 1) + Q" by (rule p2_lessD)
    then have qQ: "q \<le> Q" using Q by (simp add: q_def)
    have eQ: "e \<le> Q" using False qQ by simp
    have "real a = real T * 2 powr of_int Q / 2 powr of_int e"
      using rep by (simp add: field_simps)
    also have "\<dots> = real T * (2 powr of_int Q / 2 powr of_int e)" by simp
    also have "2 powr of_int Q / 2 powr of_int e = (2::real) powr of_int (Q - e)"
      by (rule p2_div) simp
    also have "\<dots> = 2 ^ nat (Q - e)" using eQ by (simp add: pow2_nat_powr)
    finally have "real a = real (T * 2 ^ nat (Q - e))" by simp
    then have aT: "a = T * 2 ^ nat (Q - e)" by (simp only: of_nat_eq_iff)
    have "nat (Q - e) = nat (Q - q) + nat (q - e)" using False qQ by simp
    then have "a = T * 2 ^ nat (Q - q) * 2 ^ nat (q - e)"
      using aT by (simp add: power_add)
    then have "a mod 2 ^ nat (q - e) = 0" by simp
    then show ?thesis by (simp add: r_def)
  qed
  have v: "real a * 2 powr of_int e = real t * 2 powr of_int q"
    using st(3) r0 by simp
  show "valof ew mw (fround ew mw rm neg a e) =
           (if neg then - 1 else 1) * (real a * 2 powr of_int e)"
    using res(1) unfolding r0 v by (simp add: round_away_exact)
  show "finite_of ew mw (fround ew mw rm neg a e)" by (rule res(2))
  show "sign_of ew mw (fround ew mw rm neg a e) = neg" by (rule res(3))
qed

lemma fround_zero:
  assumes "2 \<le> ew"
  shows "valof ew mw (fround ew mw rm neg 0 e) = 0"
    and "finite_of ew mw (fround ew mw rm neg 0 e)"
    and "sign_of ew mw (fround ew mw rm neg 0 e) = neg"
proof -
  have e4: "(4::nat) \<le> 2 ^ ew"
  proof -
    have "(2::nat) ^ 2 \<le> 2 ^ ew" using assms by (intro power_increasing) simp_all
    then show ?thesis by simp
  qed
  have "0 < (2 ^ ew - 1) * (2::nat) ^ mw" using e4 by simp
  then have b: "0 * 2 ^ mw + 0 < inf_pat ew mw" by (simp add: inf_pat_def)
  have f: "fround ew mw rm neg 0 e = sign_bit ew mw neg + (0 * 2 ^ mw + 0)"
    by (simp add: fround_def)
  have t: "(0::nat) \<le> 2 ^ (mw + 1)" by simp
  show "valof ew mw (fround ew mw rm neg 0 e) = 0"
    unfolding f using val_enc(1) [OF t _ b, of neg] by simp
  show "finite_of ew mw (fround ew mw rm neg 0 e)"
    unfolding f using val_enc(2) [OF t _ b, of neg] by simp
  show "sign_of ew mw (fround ew mw rm neg 0 e) = neg"
    unfolding f using val_enc(3) [OF t _ b, of neg] by simp
qed

lemma finite_dy:
  assumes "finite_of ew mw n"
  shows "\<bar>fst (dy_of ew mw n)\<bar> < 2 ^ (mw + 1)"
    and "emin ew mw \<le> snd (dy_of ew mw n)"
    and "\<not> nan_of ew mw n" and "\<not> inf_of ew mw n"
    and "sign_of ew mw n \<Longrightarrow> fst (dy_of ew mw n) \<le> 0"
    and "\<not> sign_of ew mw n \<Longrightarrow> 0 \<le> fst (dy_of ew mw n)"
proof -
  define M where
    "M = (if expo_of ew mw n = 0 then int (frac_of mw n) else 2 ^ mw + int (frac_of mw n))"
  have d: "fst (dy_of ew mw n) = (if sign_of ew mw n then - M else M)"
    by (simp add: dy_of_def Let_def M_def)
  have f: "frac_of mw n < 2 ^ mw" by (simp add: frac_of_def)
  then have f': "int (frac_of mw n) < 2 ^ mw" by (metis of_nat_less_iff of_nat_numeral of_nat_power)
  have p: "(0::int) < 2 ^ mw" by simp
  have M0: "0 \<le> M" unfolding M_def using p by (cases "expo_of ew mw n = 0") simp_all
  have M1: "M < 2 * 2 ^ mw"
  proof (cases "expo_of ew mw n = 0")
    case True
    then have "M = int (frac_of mw n)" by (simp add: M_def)
    then show ?thesis using f' p by linarith
  next
    case False
    then have "M = 2 ^ mw + int (frac_of mw n)" by (simp add: M_def)
    then show ?thesis using f' by linarith
  qed
  have "\<bar>fst (dy_of ew mw n)\<bar> = M" unfolding d using M0 by (cases "sign_of ew mw n") simp_all
  then show "\<bar>fst (dy_of ew mw n)\<bar> < 2 ^ (mw + 1)" using M1 by simp
  show "emin ew mw \<le> snd (dy_of ew mw n)" by (simp add: dy_of_def Let_def)
  show "\<not> nan_of ew mw n" "\<not> inf_of ew mw n"
    using assms by (simp_all add: finite_of_def nan_of_def inf_of_def)
  show "sign_of ew mw n \<Longrightarrow> fst (dy_of ew mw n) \<le> 0" unfolding d using M0 by simp
  show "\<not> sign_of ew mw n \<Longrightarrow> 0 \<le> fst (dy_of ew mw n)" unfolding d using M0 by simp
qed

lemma abs_dy_val: "\<bar>dy_val v\<bar> = real_of_int \<bar>fst v\<bar> * 2 powr of_int (snd v)"
  by (simp add: dy_val_def abs_mult)

lemma expo_lower:
  assumes "finite_of ew mw n" "2 powr of_int k \<le> \<bar>valof ew mw n\<bar>"
  shows "k - int mw \<le> snd (dy_of ew mw n)"
proof -
  let ?m = "fst (dy_of ew mw n)" and ?e = "snd (dy_of ew mw n)"
  have m: "real_of_int \<bar>?m\<bar> < 2 powr of_int (int (mw + 1))"
    by (rule int_less_pow2D [OF finite_dy(1) [OF assms(1)]])
  have "2 powr of_int k \<le> real_of_int \<bar>?m\<bar> * 2 powr of_int ?e"
    using assms(2) by (simp add: valof_def abs_dy_val)
  also have "\<dots> < 2 powr of_int (int (mw + 1)) * 2 powr of_int ?e"
    by (rule mult_strict_right_mono [OF m]) simp
  also have "\<dots> = 2 powr of_int (int (mw + 1) + ?e)" by (rule p2_mult) simp
  finally have "k < int (mw + 1) + ?e" by (rule p2_lessD)
  then show ?thesis by simp
qed

lemma dy_val_zero_iff: "dy_val v = 0 \<longleftrightarrow> fst v = 0"
  by (simp add: dy_val_def)

lemma fround_dy_exact:
  fixes ew mw T :: nat and Q :: int
  assumes ew: "2 \<le> ew"
    and rep: "\<bar>dy_val v\<bar> = real T * 2 powr of_int Q"
    and T: "T < 2 ^ (mw + 1)" and Q: "emin ew mw \<le> Q"
    and noovf: "\<bar>dy_val v\<bar> < 2 powr of_int (emin ew mw + int mw + 2 ^ ew - 3)"
  shows "valof ew mw (fround_dy ew mw rm v) = dy_val v"
    and "finite_of ew mw (fround_dy ew mw rm v)"
proof -
  let ?a = "nat \<bar>fst v\<bar>"
  have av: "real ?a * 2 powr of_int (snd v) = \<bar>dy_val v\<bar>"
    by (simp add: abs_dy_val)
  show "valof ew mw (fround_dy ew mw rm v) = dy_val v"
   and "finite_of ew mw (fround_dy ew mw rm v)"
  proof (atomize (full), cases "fst v = 0")
    case True
    then have "dy_val v = 0" by (simp add: dy_val_def)
    then show "valof ew mw (fround_dy ew mw rm v) = dy_val v \<and> finite_of ew mw (fround_dy ew mw rm v)"
      using True fround_zero [OF ew, of mw rm "fst v < 0" "snd v"]
      by (simp add: fround_dy_def)
  next
    case False
    then have a: "0 < ?a" by simp
    have rep': "real ?a * 2 powr of_int (snd v) = real T * 2 powr of_int Q"
      using rep av by simp
    have no': "real ?a * 2 powr of_int (snd v) < 2 powr of_int (emin ew mw + int mw + 2 ^ ew - 3)"
      using noovf av by simp
    note ex = fround_exact [OF ew a rep' T Q no', of rm "fst v < 0"]
    have "(if fst v < 0 then - 1 else 1) * \<bar>dy_val v\<bar> = dy_val v"
      by (simp add: dy_val_def abs_mult mult_less_0_iff zero_le_mult_iff not_less)
    then have "valof ew mw (fround_dy ew mw rm v) = dy_val v"
      using ex(1) unfolding av fround_dy_def by simp
    then show "valof ew mw (fround_dy ew mw rm v) = dy_val v \<and> finite_of ew mw (fround_dy ew mw rm v)"
      using ex(2) by (simp add: fround_dy_def)
  qed
qed

lemma sign_bit_val:
  assumes "2 \<le> ew"
  shows "valof ew mw (sign_bit ew mw s) = 0" "finite_of ew mw (sign_bit ew mw s)"
  using fround_zero [OF assms, of mw FE_TONEAREST s 0] by (simp_all add: fround_def)

lemma fadd_exact:
  fixes ew mw T :: nat and Q :: int
  assumes ew: "2 \<le> ew" and fx: "finite_of ew mw x" and fy: "finite_of ew mw y"
    and rep: "\<bar>valof ew mw x + valof ew mw y\<bar> = real T * 2 powr of_int Q"
    and T: "T < 2 ^ (mw + 1)" and Q: "emin ew mw \<le> Q"
    and noovf: "\<bar>valof ew mw x + valof ew mw y\<bar> < 2 powr of_int (emin ew mw + int mw + 2 ^ ew - 3)"
  shows "valof ew mw (fadd ew mw rm x y) = valof ew mw x + valof ew mw y"
    and "finite_of ew mw (fadd ew mw rm x y)"
proof -
  let ?v = "dy_add (dy_of ew mw x) (dy_of ew mw y)"
  have v: "dy_val ?v = valof ew mw x + valof ew mw y" by (simp add: dy_val_add valof_def)
  have f: "fadd ew mw rm x y =
    (if fst ?v = 0 then zero_sum ew mw rm (sign_of ew mw x) (sign_of ew mw y) else fround_dy ew mw rm ?v)"
    using finite_dy(3,4) [OF fx] finite_dy(3,4) [OF fy] by (simp add: fadd_def Let_def)
  show "valof ew mw (fadd ew mw rm x y) = valof ew mw x + valof ew mw y"
   and "finite_of ew mw (fadd ew mw rm x y)"
  proof (atomize (full), cases "fst ?v = 0")
    case True
    then have "dy_val ?v = 0" by (simp add: dy_val_def)
    then show "valof ew mw (fadd ew mw rm x y) = valof ew mw x + valof ew mw y \<and>
        finite_of ew mw (fadd ew mw rm x y)"
      using True sign_bit_val [OF ew, of mw] unfolding f v by (simp add: zero_sum_def)
  next
    case False
    note ex = fround_dy_exact [OF ew _ T Q, of ?v rm, unfolded v, OF rep noovf]
    show "valof ew mw (fadd ew mw rm x y) = valof ew mw x + valof ew mw y \<and>
        finite_of ew mw (fadd ew mw rm x y)"
      using False ex unfolding f by simp
  qed
qed

lemma fadd_exact_small:
  fixes ew mw :: nat and e0 :: int
  assumes ew: "2 \<le> ew" and fx: "finite_of ew mw x" and fy: "finite_of ew mw y"
    and ex: "e0 \<le> snd (dy_of ew mw x)" and ey: "e0 \<le> snd (dy_of ew mw y)"
    and small: "\<bar>valof ew mw x + valof ew mw y\<bar> < 2 powr of_int (e0 + int mw + 1)"
    and noovf: "\<bar>valof ew mw x + valof ew mw y\<bar> < 2 powr of_int (emin ew mw + int mw + 2 ^ ew - 3)"
  shows "valof ew mw (fadd ew mw rm x y) = valof ew mw x + valof ew mw y"
    and "finite_of ew mw (fadd ew mw rm x y)"
proof -
  let ?v = "dy_add (dy_of ew mw x) (dy_of ew mw y)"
  let ?T = "nat \<bar>fst ?v\<bar>" and ?Q = "snd ?v"
  have v: "dy_val ?v = valof ew mw x + valof ew mw y" by (simp add: dy_val_add valof_def)
  have Qe: "?Q = min (snd (dy_of ew mw x)) (snd (dy_of ew mw y))" by (simp add: dy_add_def Let_def)
  have Q0: "e0 \<le> ?Q" using ex ey Qe by simp
  have Q: "emin ew mw \<le> ?Q" using finite_dy(2) [OF fx] finite_dy(2) [OF fy] Qe by simp
  have rep: "\<bar>valof ew mw x + valof ew mw y\<bar> = real ?T * 2 powr of_int ?Q"
    unfolding v [symmetric] by (simp add: abs_dy_val)
  have "real ?T * 2 powr of_int ?Q < 2 powr of_int (e0 + int mw + 1)"
    using small rep by simp
  also have "\<dots> \<le> 2 powr of_int (?Q + int mw + 1)" by (rule p2_le) (use Q0 in simp)
  also have "\<dots> = 2 powr of_int (int (mw + 1)) * 2 powr of_int ?Q" by (rule p2_mult [symmetric]) simp
  finally have "real ?T < 2 powr of_int (int (mw + 1))" by simp
  then have T: "?T < 2 ^ (mw + 1)" by (rule nat_less_pow2I)
  show "valof ew mw (fadd ew mw rm x y) = valof ew mw x + valof ew mw y"
    by (rule fadd_exact [OF ew fx fy rep T Q noovf])
  show "finite_of ew mw (fadd ew mw rm x y)"
    by (rule fadd_exact [OF ew fx fy rep T Q noovf])
qed

lemma fmul_exact:
  fixes ew mw T :: nat and Q :: int
  assumes ew: "2 \<le> ew" and fx: "finite_of ew mw x" and fy: "finite_of ew mw y"
    and rep: "\<bar>valof ew mw x * valof ew mw y\<bar> = real T * 2 powr of_int Q"
    and T: "T < 2 ^ (mw + 1)" and Q: "emin ew mw \<le> Q"
    and noovf: "\<bar>valof ew mw x * valof ew mw y\<bar> < 2 powr of_int (emin ew mw + int mw + 2 ^ ew - 3)"
  shows "valof ew mw (fmul ew mw rm x y) = valof ew mw x * valof ew mw y"
    and "finite_of ew mw (fmul ew mw rm x y)"
proof -
  let ?v = "dy_mul (dy_of ew mw x) (dy_of ew mw y)"
  let ?neg = "sign_of ew mw x \<noteq> sign_of ew mw y"
  let ?a = "nat \<bar>fst ?v\<bar>"
  have v: "dy_val ?v = valof ew mw x * valof ew mw y" by (simp add: dy_val_mul valof_def)
  have av: "real ?a * 2 powr of_int (snd ?v) = \<bar>dy_val ?v\<bar>" by (simp add: abs_dy_val)
  have f: "fmul ew mw rm x y = fround ew mw rm ?neg ?a (snd ?v)"
    using finite_dy(3,4) [OF fx] finite_dy(3,4) [OF fy] by (simp add: fmul_def Let_def)
  show "valof ew mw (fmul ew mw rm x y) = valof ew mw x * valof ew mw y"
   and "finite_of ew mw (fmul ew mw rm x y)"
  proof (atomize (full), cases "fst ?v = 0")
    case True
    then have "dy_val ?v = 0" by (simp add: dy_val_def)
    then show "valof ew mw (fmul ew mw rm x y) = valof ew mw x * valof ew mw y \<and>
        finite_of ew mw (fmul ew mw rm x y)"
      using True fround_zero [OF ew, of mw rm ?neg "snd ?v"] unfolding f v by simp
  next
    case False
    then have a: "0 < ?a" by simp
    have nz: "fst (dy_of ew mw x) \<noteq> 0" "fst (dy_of ew mw y) \<noteq> 0"
      using False by (simp_all add: dy_mul_def)
    have sx: "sign_of ew mw x \<longleftrightarrow> fst (dy_of ew mw x) < 0"
      using finite_dy(5,6) [OF fx] nz(1) by (cases "sign_of ew mw x") auto
    have sy: "sign_of ew mw y \<longleftrightarrow> fst (dy_of ew mw y) < 0"
      using finite_dy(5,6) [OF fy] nz(2) by (cases "sign_of ew mw y") auto
    have neg: "?neg \<longleftrightarrow> fst ?v < 0"
      unfolding sx sy using nz by (auto simp add: dy_mul_def mult_less_0_iff)
    have rep': "real ?a * 2 powr of_int (snd ?v) = real T * 2 powr of_int Q"
      using rep av v by simp
    have no': "real ?a * 2 powr of_int (snd ?v) < 2 powr of_int (emin ew mw + int mw + 2 ^ ew - 3)"
      using noovf av v by simp
    note ex = fround_exact [OF ew a rep' T Q no', of rm ?neg]
    have "(if fst ?v < 0 then - 1 else 1) * \<bar>dy_val ?v\<bar> = dy_val ?v"
      by (simp add: dy_val_def abs_mult mult_less_0_iff zero_le_mult_iff not_less)
    then have "valof ew mw (fmul ew mw rm x y) = dy_val ?v"
      using ex(1) unfolding av f neg by simp
    then show "valof ew mw (fmul ew mw rm x y) = valof ew mw x * valof ew mw y \<and>
        finite_of ew mw (fmul ew mw rm x y)"
      using ex(2) v unfolding f by simp
  qed
qed

lemma finite_split:
  assumes "finite_of ew mw n"
  obtains p where "p < 2 ^ (ew + mw)" "n = sign_bit ew mw (sign_of ew mw n) + p"
    "expo_of ew mw p < 2 ^ ew - 1"
proof (cases "sign_of ew mw n")
  case False
  have "n < 2 * 2 ^ (ew + mw)" using assms by (simp add: finite_of_def)
  then have "n div 2 ^ (ew + mw) < 2" by (simp add: div_less_iff_less_mult)
  moreover have "even (n div 2 ^ (ew + mw))" using False by (simp add: sign_of_def)
  ultimately have "n div 2 ^ (ew + mw) = 0" by (cases "n div 2 ^ (ew + mw)") auto
  then have lt: "n < 2 ^ (ew + mw)" by (simp add: div_eq_0_iff)
  show ?thesis
    using lt False assms by (intro that [of n]) (simp_all add: sign_bit_def finite_of_def)
next
  case True
  have n2: "n < 2 * 2 ^ (ew + mw)" using assms by (simp add: finite_of_def)
  have "odd (n div 2 ^ (ew + mw))" using True by (simp add: sign_of_def)
  then have "n div 2 ^ (ew + mw) \<noteq> 0" by (rule odd_pos [THEN less_imp_neq [THEN not_sym]])
  then have ge: "2 ^ (ew + mw) \<le> n" by (simp add: div_eq_0_iff not_less)
  define p where "p = n - 2 ^ (ew + mw)"
  have p: "p < 2 ^ (ew + mw)" "n = 2 ^ (ew + mw) + p" using n2 ge by (simp_all add: p_def)
  have "expo_of ew mw p = expo_of ew mw n"
    unfolding p(2) by (rule fields_sign_bit(1) [OF p(1), symmetric])
  then show ?thesis
    using p True assms by (intro that [of p]) (simp_all add: sign_bit_def finite_of_def)
qed

lemma negate_val:
  assumes "finite_of ew mw n"
  shows "valof ew mw (negate_of ew mw n) = - valof ew mw n"
    and "finite_of ew mw (negate_of ew mw n)"
    and "snd (dy_of ew mw (negate_of ew mw n)) = snd (dy_of ew mw n)"
proof -
  from finite_split [OF assms] obtain p where p: "p < 2 ^ (ew + mw)"
    "n = sign_bit ew mw (sign_of ew mw n) + p" "expo_of ew mw p < 2 ^ ew - 1"
    by blast
  have neg: "negate_of ew mw n = sign_bit ew mw (\<not> sign_of ew mw n) + p"
    using p(2) by (cases "sign_of ew mw n") (simp_all add: negate_of_def sign_bit_def)
  have d1: "dy_of ew mw n =
      ((if sign_of ew mw n then - fst (dy_of ew mw p) else fst (dy_of ew mw p)), snd (dy_of ew mw p))"
    using dy_of_sign_bit [OF p(1), of "sign_of ew mw n"] p(2) by simp
  have d2: "dy_of ew mw (negate_of ew mw n) =
      ((if \<not> sign_of ew mw n then - fst (dy_of ew mw p) else fst (dy_of ew mw p)), snd (dy_of ew mw p))"
    unfolding neg by (rule dy_of_sign_bit [OF p(1)])
  show "valof ew mw (negate_of ew mw n) = - valof ew mw n"
    unfolding valof_def d2 by (subst d1) (simp add: dy_val_def)
  show "finite_of ew mw (negate_of ew mw n)"
    unfolding neg by (rule finite_sign_bit [OF p(1) p(3)])
  show "snd (dy_of ew mw (negate_of ew mw n)) = snd (dy_of ew mw n)"
    unfolding d2 by (subst d1) simp
qed

lemma fsub_unfold:
  assumes "finite_of ew mw x" "finite_of ew mw y"
  shows "fsub ew mw rm x y = fadd ew mw rm x (negate_of ew mw y)"
  using finite_dy(3) [OF assms(1)] finite_dy(3) [OF assms(2)] by (simp add: fsub_def)

lemma fless_val:
  assumes "finite_of ew mw x" "finite_of ew mw y"
  shows "fless ew mw x y \<longleftrightarrow> valof ew mw x < valof ew mw y"
  using finite_dy(3,4) [OF assms(1)] finite_dy(3,4) [OF assms(2)]
  by (simp add: fless_def dy_less_iff valof_def)

lemma finite_upper:
  assumes ew: "2 \<le> ew" and "finite_of ew mw n"
  shows "snd (dy_of ew mw n) \<le> emin ew mw + 2 ^ ew - 3"
    and "\<bar>valof ew mw n\<bar> < 2 powr of_int (emin ew mw + int mw + 2 ^ ew - 2)"
proof -
  have "expo_of ew mw n < 2 ^ ew - 1" using assms(2) by (simp add: finite_of_def)
  then have "int (expo_of ew mw n) < int (2 ^ ew - 1)" by (simp only: of_nat_less_iff)
  also have "int (2 ^ ew - 1) = 2 ^ ew - 1" by (simp add: of_nat_diff)
  finally have e: "int (expo_of ew mw n) \<le> 2 ^ ew - 2" by simp
  have p: "(1::int) \<le> 2 ^ ew" by simp
  show s: "snd (dy_of ew mw n) \<le> emin ew mw + 2 ^ ew - 3"
  proof (cases "expo_of ew mw n = 0")
    case True
    then have "snd (dy_of ew mw n) = emin ew mw" by (simp add: dy_of_def Let_def)
    moreover have "(3::int) \<le> 2 ^ ew"
    proof -
      have "(2::int) ^ 2 \<le> 2 ^ ew" using ew by (intro power_increasing) simp_all
      then show ?thesis by simp
    qed
    ultimately show ?thesis by simp
  next
    case False
    then have "snd (dy_of ew mw n) = emin ew mw + int (expo_of ew mw n) - 1"
      by (simp add: dy_of_def Let_def)
    then show ?thesis using e by simp
  qed
  have "\<bar>valof ew mw n\<bar> = real_of_int \<bar>fst (dy_of ew mw n)\<bar> * 2 powr of_int (snd (dy_of ew mw n))"
    by (simp add: valof_def abs_dy_val)
  also have "\<dots> < 2 powr of_int (int (mw + 1)) * 2 powr of_int (snd (dy_of ew mw n))"
    by (rule mult_strict_right_mono [OF int_less_pow2D [OF finite_dy(1) [OF assms(2)]]]) simp
  also have "\<dots> = 2 powr of_int (int (mw + 1) + snd (dy_of ew mw n))" by (rule p2_mult) simp
  also have "\<dots> \<le> 2 powr of_int (emin ew mw + int mw + 2 ^ ew - 2)"
    by (rule p2_le) (use s in simp)
  finally show "\<bar>valof ew mw n\<bar> < 2 powr of_int (emin ew mw + int mw + 2 ^ ew - 2)" .
qed

lemma ftrunc_abs:
  fixes ew mw n
  defines "v \<equiv> dy_of ew mw n"
  defines "a \<equiv> (if 0 \<le> snd v then \<bar>fst v\<bar> * 2 ^ nat (snd v) else \<bar>fst v\<bar> div 2 ^ nat (- snd v))"
  shows "0 \<le> a" and "real_of_int a \<le> \<bar>valof ew mw n\<bar>" and "\<bar>valof ew mw n\<bar> < real_of_int a + 1"
    and "ftrunc ew mw n = (if fst v < 0 then - a else a)"
proof -
  have av: "\<bar>valof ew mw n\<bar> = real_of_int \<bar>fst v\<bar> * 2 powr of_int (snd v)"
    by (simp add: valof_def abs_dy_val v_def)
  show "ftrunc ew mw n = (if fst v < 0 then - a else a)"
    by (simp add: ftrunc_def Let_def a_def v_def)
  show "0 \<le> a" by (simp add: a_def pos_imp_zdiv_nonneg_iff)
  show "real_of_int a \<le> \<bar>valof ew mw n\<bar>" and "\<bar>valof ew mw n\<bar> < real_of_int a + 1"
  proof (atomize (full), cases "0 \<le> snd v")
    case True
    then have "real_of_int a = \<bar>valof ew mw n\<bar>"
      unfolding av by (simp add: a_def pow2_nat_powr)
    then show "real_of_int a \<le> \<bar>valof ew mw n\<bar> \<and> \<bar>valof ew mw n\<bar> < real_of_int a + 1" by simp
  next
    case False
    let ?d = "(2::int) ^ nat (- snd v)"
    have d0: "0 < ?d" by simp
    have a: "a = \<bar>fst v\<bar> div ?d" using False by (simp add: a_def)
    have dm: "\<bar>fst v\<bar> = a * ?d + \<bar>fst v\<bar> mod ?d"
      unfolding a by (rule div_mult_mod_eq [symmetric])
    have r: "0 \<le> \<bar>fst v\<bar> mod ?d" "\<bar>fst v\<bar> mod ?d < ?d"
      using d0 by (simp_all only: pos_mod_sign pos_mod_bound)
    have rd: "real_of_int ?d = 2 powr of_int (- snd v)" using False by (simp add: pow2_nat_powr)
    have "real_of_int \<bar>fst v\<bar> = real_of_int a * real_of_int ?d + real_of_int (\<bar>fst v\<bar> mod ?d)"
      by (metis dm of_int_add of_int_mult)
    then have m: "real_of_int \<bar>fst v\<bar> * 2 powr of_int (snd v) =
        real_of_int a + real_of_int (\<bar>fst v\<bar> mod ?d) / real_of_int ?d"
      unfolding rd by (simp add: powr_minus field_simps)
    have r1: "0 \<le> real_of_int (\<bar>fst v\<bar> mod ?d) / real_of_int ?d"
      using r(1) d0 by simp
    have "real_of_int (\<bar>fst v\<bar> mod ?d) < real_of_int ?d" using r(2) by (simp only: of_int_less_iff)
    then have r2: "real_of_int (\<bar>fst v\<bar> mod ?d) / real_of_int ?d < 1"
      using d0 by simp
    show "real_of_int a \<le> \<bar>valof ew mw n\<bar> \<and> \<bar>valof ew mw n\<bar> < real_of_int a + 1"
      unfolding av m using r1 r2 by linarith
  qed
qed

lemma ftrunc_val:
  assumes "finite_of ew mw n"
  shows "0 \<le> valof ew mw n \<Longrightarrow>
           real_of_int (ftrunc ew mw n) \<le> valof ew mw n \<and> valof ew mw n < real_of_int (ftrunc ew mw n) + 1"
    and "valof ew mw n \<le> 0 \<Longrightarrow>
           real_of_int (ftrunc ew mw n) - 1 < valof ew mw n \<and> valof ew mw n \<le> real_of_int (ftrunc ew mw n)"
proof -
  let ?v = "dy_of ew mw n"
  note t = ftrunc_abs [of ew mw n]
  have sg: "fst ?v < 0 \<longleftrightarrow> valof ew mw n < 0"
    by (simp add: valof_def dy_val_def mult_less_0_iff)
  show "real_of_int (ftrunc ew mw n) \<le> valof ew mw n \<and> valof ew mw n < real_of_int (ftrunc ew mw n) + 1"
    if "0 \<le> valof ew mw n"
  proof -
    have "\<not> fst ?v < 0" using that sg by simp
    then have "ftrunc ew mw n = (if 0 \<le> snd ?v then \<bar>fst ?v\<bar> * 2 ^ nat (snd ?v) else \<bar>fst ?v\<bar> div 2 ^ nat (- snd ?v))"
      using t(4) by simp
    then show ?thesis using t(2,3) that by simp
  qed
  show "real_of_int (ftrunc ew mw n) - 1 < valof ew mw n \<and> valof ew mw n \<le> real_of_int (ftrunc ew mw n)"
    if "valof ew mw n \<le> 0"
  proof (cases "fst ?v < 0")
    case True
    then have "ftrunc ew mw n = - (if 0 \<le> snd ?v then \<bar>fst ?v\<bar> * 2 ^ nat (snd ?v) else \<bar>fst ?v\<bar> div 2 ^ nat (- snd ?v))"
      using t(4) by simp
    then show ?thesis using t(2,3) that by simp
  next
    case False
    then have z: "valof ew mw n = 0" using sg that by simp
    have "ftrunc ew mw n = (if 0 \<le> snd ?v then \<bar>fst ?v\<bar> * 2 ^ nat (snd ?v) else \<bar>fst ?v\<bar> div 2 ^ nat (- snd ?v))"
      using t(4) False by simp
    then show ?thesis using t(1,2,3) z by simp
  qed
qed

lemma emin_f32: "emin 8 23 = - 149" by (simp add: emin_def)
lemma emin_f64: "emin 11 52 = - 1074" by (simp add: emin_def)

lemma f32_wrap:
  assumes "finite_of 8 23 p"
  shows "unat (word_of_nat p :: 32 word) = p"
  using assms by (simp add: finite_of_def unat_of_nat)

lemma f64_wrap:
  assumes "finite_of 11 52 p"
  shows "unat (word_of_nat p :: 64 word) = p"
  using assms by (simp add: finite_of_def unat_of_nat)

lemma fconv_exact:
  fixes ew mw ew' mw' :: nat
  assumes ew': "2 \<le> ew'" and fx: "finite_of ew mw x"
    and mw: "mw \<le> mw'" and em: "emin ew' mw' \<le> emin ew mw"
    and noovf: "\<bar>valof ew mw x\<bar> < 2 powr of_int (emin ew' mw' + int mw' + 2 ^ ew' - 3)"
  shows "valof ew' mw' (fconv ew mw ew' mw' rm x) = valof ew mw x"
    and "finite_of ew' mw' (fconv ew mw ew' mw' rm x)"
proof -
  let ?v = "dy_of ew mw x"
  let ?a = "nat \<bar>fst ?v\<bar>"
  have f: "fconv ew mw ew' mw' rm x = fround ew' mw' rm (sign_of ew mw x) ?a (snd ?v)"
    using finite_dy(3,4) [OF fx] by (simp add: fconv_def)
  have av: "real ?a * 2 powr of_int (snd ?v) = \<bar>valof ew mw x\<bar>"
    by (simp add: valof_def abs_dy_val)
  show "valof ew' mw' (fconv ew mw ew' mw' rm x) = valof ew mw x"
   and "finite_of ew' mw' (fconv ew mw ew' mw' rm x)"
  proof (atomize (full), cases "fst ?v = 0")
    case True
    then have "valof ew mw x = 0" by (simp add: valof_def dy_val_def)
    then show "valof ew' mw' (fconv ew mw ew' mw' rm x) = valof ew mw x \<and>
        finite_of ew' mw' (fconv ew mw ew' mw' rm x)"
      using True fround_zero [OF ew', of mw' rm "sign_of ew mw x" "snd ?v"] unfolding f by simp
  next
    case False
    then have a: "0 < ?a" by simp
    have sx: "sign_of ew mw x \<longleftrightarrow> fst ?v < 0"
      using finite_dy(5,6) [OF fx] False by (cases "sign_of ew mw x") auto
    have "\<bar>fst ?v\<bar> < 2 ^ (mw + 1)" by (rule finite_dy(1) [OF fx])
    also have "(2::int) ^ (mw + 1) \<le> 2 ^ (mw' + 1)" using mw by (intro power_increasing) simp_all
    finally have "int ?a < int (2 ^ (mw' + 1))" by simp
    then have T: "?a < 2 ^ (mw' + 1)" by (simp only: of_nat_less_iff)
    have Q: "emin ew' mw' \<le> snd ?v" using finite_dy(2) [OF fx] em by simp
    have no': "real ?a * 2 powr of_int (snd ?v) < 2 powr of_int (emin ew' mw' + int mw' + 2 ^ ew' - 3)"
      using noovf av by simp
    note ex = fround_exact [OF ew' a refl T Q no', of rm "sign_of ew mw x"]
    have "(if fst ?v < 0 then - 1 else 1) * \<bar>valof ew mw x\<bar> = valof ew mw x"
      by (simp add: valof_def dy_val_def abs_mult mult_less_0_iff zero_le_mult_iff not_less)
    then have "valof ew' mw' (fconv ew mw ew' mw' rm x) = valof ew mw x"
      using ex(1) unfolding av f sx by simp
    then show "valof ew' mw' (fconv ew mw ew' mw' rm x) = valof ew mw x \<and>
        finite_of ew' mw' (fconv ew mw ew' mw' rm x)"
      using ex(2) unfolding f by simp
  qed
qed

text \<open>The operations on the types float and double.\<close>

lemma f32_mul_exact:
  fixes T :: nat and Q :: int
  assumes "f32_finite x" "f32_finite y"
    and "\<bar>f32_val x * f32_val y\<bar> = real T * 2 powr of_int Q"
    and "T < 2 ^ 24" "- 149 \<le> Q" "\<bar>f32_val x * f32_val y\<bar> < 2 powr 127"
  shows "f32_val (f32_mul rm x y) = f32_val x * f32_val y" and "f32_finite (f32_mul rm x y)"
proof -
  have ew: "(2::nat) \<le> 8" by simp
  have T: "T < 2 ^ (23 + 1)" using assms(4) by simp
  have Q: "emin 8 23 \<le> Q" using assms(5) by (simp add: emin_f32)
  have no: "\<bar>valof 8 23 (unat x) * valof 8 23 (unat y)\<bar> < 2 powr of_int (emin 8 23 + int 23 + 2 ^ 8 - 3)"
    using assms(6) by (simp add: emin_f32 f32_val_def)
  note ex = fmul_exact [OF ew assms(1,2) [unfolded f32_finite_def] assms(3) [unfolded f32_val_def] T Q no, of rm]
  show "f32_val (f32_mul rm x y) = f32_val x * f32_val y"
    using ex by (simp add: f32_val_def f32_mul_def f32_wrap)
  show "f32_finite (f32_mul rm x y)"
    using ex by (simp add: f32_finite_def f32_mul_def f32_wrap)
qed

lemma f32_sub_exact_small:
  fixes e0 :: int
  assumes "f32_finite x" "f32_finite y"
    and "e0 \<le> snd (dy_of 8 23 (unat x))" "e0 \<le> snd (dy_of 8 23 (unat y))"
    and "\<bar>f32_val x - f32_val y\<bar> < 2 powr of_int (e0 + 24)"
    and "\<bar>f32_val x - f32_val y\<bar> < 2 powr 127"
  shows "f32_val (f32_sub rm x y) = f32_val x - f32_val y" and "f32_finite (f32_sub rm x y)"
proof -
  have ew: "(2::nat) \<le> 8" by simp
  note fy = assms(2) [unfolded f32_finite_def]
  note ng = negate_val [OF fy]
  have s: "fsub 8 23 rm (unat x) (unat y) = fadd 8 23 rm (unat x) (negate_of 8 23 (unat y))"
    by (rule fsub_unfold [OF assms(1) [unfolded f32_finite_def] fy])
  have e2: "e0 \<le> snd (dy_of 8 23 (negate_of 8 23 (unat y)))" using assms(4) ng(3) by simp
  have sm: "\<bar>valof 8 23 (unat x) + valof 8 23 (negate_of 8 23 (unat y))\<bar> < 2 powr of_int (e0 + int 23 + 1)"
    using assms(5) by (simp add: ng(1) f32_val_def add.commute)
  have no: "\<bar>valof 8 23 (unat x) + valof 8 23 (negate_of 8 23 (unat y))\<bar>
      < 2 powr of_int (emin 8 23 + int 23 + 2 ^ 8 - 3)"
    using assms(6) by (simp add: ng(1) f32_val_def emin_f32)
  note ex = fadd_exact_small [OF ew assms(1) [unfolded f32_finite_def] ng(2) assms(3) e2 sm no, of rm]
  show "f32_val (f32_sub rm x y) = f32_val x - f32_val y"
    using ex by (simp add: f32_val_def f32_sub_def s f32_wrap ng(1))
  show "f32_finite (f32_sub rm x y)"
    using ex by (simp add: f32_finite_def f32_sub_def s f32_wrap)
qed

lemma f64_add_exact_small:
  fixes e0 :: int
  assumes "f64_finite x" "f64_finite y"
    and "e0 \<le> snd (dy_of 11 52 (unat x))" "e0 \<le> snd (dy_of 11 52 (unat y))"
    and "\<bar>f64_val x + f64_val y\<bar> < 2 powr of_int (e0 + 53)"
    and "\<bar>f64_val x + f64_val y\<bar> < 2 powr 1023"
  shows "f64_val (f64_add rm x y) = f64_val x + f64_val y" and "f64_finite (f64_add rm x y)"
proof -
  have ew: "(2::nat) \<le> 11" by simp
  have sm: "\<bar>valof 11 52 (unat x) + valof 11 52 (unat y)\<bar> < 2 powr of_int (e0 + int 52 + 1)"
    using assms(5) by (simp add: f64_val_def add.commute)
  have no: "\<bar>valof 11 52 (unat x) + valof 11 52 (unat y)\<bar>
      < 2 powr of_int (emin 11 52 + int 52 + 2 ^ 11 - 3)"
    using assms(6) by (simp add: f64_val_def emin_f64)
  note ex = fadd_exact_small [OF ew assms(1,2) [unfolded f64_finite_def] assms(3,4) sm no, of rm]
  show "f64_val (f64_add rm x y) = f64_val x + f64_val y"
    using ex by (simp add: f64_val_def f64_add_def f64_wrap)
  show "f64_finite (f64_add rm x y)"
    using ex by (simp add: f64_finite_def f64_add_def f64_wrap)
qed

lemma f64_sub_exact_small:
  fixes e0 :: int
  assumes "f64_finite x" "f64_finite y"
    and "e0 \<le> snd (dy_of 11 52 (unat x))" "e0 \<le> snd (dy_of 11 52 (unat y))"
    and "\<bar>f64_val x - f64_val y\<bar> < 2 powr of_int (e0 + 53)"
    and "\<bar>f64_val x - f64_val y\<bar> < 2 powr 1023"
  shows "f64_val (f64_sub rm x y) = f64_val x - f64_val y" and "f64_finite (f64_sub rm x y)"
proof -
  have ew: "(2::nat) \<le> 11" by simp
  note fy = assms(2) [unfolded f64_finite_def]
  note ng = negate_val [OF fy]
  have s: "fsub 11 52 rm (unat x) (unat y) = fadd 11 52 rm (unat x) (negate_of 11 52 (unat y))"
    by (rule fsub_unfold [OF assms(1) [unfolded f64_finite_def] fy])
  have e2: "e0 \<le> snd (dy_of 11 52 (negate_of 11 52 (unat y)))" using assms(4) ng(3) by simp
  have sm: "\<bar>valof 11 52 (unat x) + valof 11 52 (negate_of 11 52 (unat y))\<bar> < 2 powr of_int (e0 + int 52 + 1)"
    using assms(5) by (simp add: ng(1) f64_val_def add.commute)
  have no: "\<bar>valof 11 52 (unat x) + valof 11 52 (negate_of 11 52 (unat y))\<bar>
      < 2 powr of_int (emin 11 52 + int 52 + 2 ^ 11 - 3)"
    using assms(6) by (simp add: ng(1) f64_val_def emin_f64)
  note ex = fadd_exact_small [OF ew assms(1) [unfolded f64_finite_def] ng(2) assms(3) e2 sm no, of rm]
  show "f64_val (f64_sub rm x y) = f64_val x - f64_val y"
    using ex by (simp add: f64_val_def f64_sub_def s f64_wrap ng(1))
  show "f64_finite (f64_sub rm x y)"
    using ex by (simp add: f64_finite_def f64_sub_def s f64_wrap)
qed

lemma f32_to_f64_exact:
  assumes "f32_finite x"
  shows "f64_val (f32_to_f64 x) = f32_val x" and "f64_finite (f32_to_f64 x)"
proof -
  have ew: "(2::nat) \<le> 11" "(2::nat) \<le> 8" by simp_all
  note fx = assms [unfolded f32_finite_def]
  have "\<bar>valof 8 23 (unat x)\<bar> < 2 powr of_int (emin 8 23 + int 23 + 2 ^ 8 - 2)"
    by (rule finite_upper(2) [OF ew(2) fx])
  also have "\<dots> \<le> 2 powr of_int (emin 11 52 + int 52 + 2 ^ 11 - 3)"
    by (rule p2_le) (simp add: emin_f32 emin_f64)
  finally have no: "\<bar>valof 8 23 (unat x)\<bar> < 2 powr of_int (emin 11 52 + int 52 + 2 ^ 11 - 3)" .
  have mw: "(23::nat) \<le> 52" by simp
  have em: "emin 11 52 \<le> emin 8 23" by (simp add: emin_f32 emin_f64)
  note ex = fconv_exact [OF ew(1) fx mw em no, of FE_TONEAREST]
  show "f64_val (f32_to_f64 x) = f32_val x"
    using ex by (simp add: f64_val_def f32_val_def f32_to_f64_def f64_wrap)
  show "f64_finite (f32_to_f64 x)"
    using ex by (simp add: f64_finite_def f32_to_f64_def f64_wrap)
qed

lemma int_to_f32_exact:
  assumes "\<bar>i\<bar> < 2 ^ 24"
  shows "f32_val (int_to_f32 rm i) = real_of_int i" and "f32_finite (int_to_f32 rm i)"
proof -
  have ew: "(2::nat) \<le> 8" by simp
  have f: "fof_int 8 23 rm i = fround_dy 8 23 rm (i, 0)"
    by (simp add: fof_int_def fround_dy_def)
  have rep: "\<bar>dy_val (i, 0)\<bar> = real (nat \<bar>i\<bar>) * 2 powr of_int 0"
    by (simp add: dy_val_def)
  have "int (nat \<bar>i\<bar>) < int (2 ^ (23 + 1))" using assms by simp
  then have T: "nat \<bar>i\<bar> < 2 ^ (23 + 1)" by (simp only: of_nat_less_iff)
  have Q: "emin 8 23 \<le> 0" by (simp add: emin_f32)
  have "real_of_int \<bar>i\<bar> < 2 powr of_int (int 24)" by (rule int_less_pow2D [OF assms])
  also have "\<dots> \<le> 2 powr of_int (emin 8 23 + int 23 + 2 ^ 8 - 3)"
    by (rule p2_le) (simp add: emin_f32)
  finally have no: "\<bar>dy_val (i, 0)\<bar> < 2 powr of_int (emin 8 23 + int 23 + 2 ^ 8 - 3)"
    by (simp add: dy_val_def)
  note ex = fround_dy_exact [OF ew rep T Q no, of rm]
  show "f32_val (int_to_f32 rm i) = real_of_int i"
    using ex by (simp add: f32_val_def int_to_f32_def f f32_wrap dy_val_def)
  show "f32_finite (int_to_f32 rm i)"
    using ex by (simp add: f32_finite_def int_to_f32_def f f32_wrap)
qed

lemma f32_to_int_val:
  assumes "f32_finite x" "\<bar>f32_val x\<bar> < 2 ^ 31"
  shows "0 \<le> f32_val x \<Longrightarrow>
           real_of_int (f32_to_int x) \<le> f32_val x \<and> f32_val x < real_of_int (f32_to_int x) + 1"
    and "f32_val x \<le> 0 \<Longrightarrow>
           real_of_int (f32_to_int x) - 1 < f32_val x \<and> f32_val x \<le> real_of_int (f32_to_int x)"
proof -
  note fx = assms(1) [unfolded f32_finite_def]
  note t = ftrunc_abs [of 8 23 "unat x"]
  let ?i = "ftrunc 8 23 (unat x)"
  have "real_of_int \<bar>?i\<bar> \<le> \<bar>valof 8 23 (unat x)\<bar>"
    using t(1,2) unfolding t(4) by simp
  also have "\<dots> < 2 ^ 31" using assms(2) by (simp add: f32_val_def)
  finally have "real_of_int \<bar>?i\<bar> < real_of_int (2 ^ 31)" by simp
  then have "\<bar>?i\<bar> < 2 ^ 31" by (simp only: of_int_less_iff)
  then have "- (2 ^ 31) \<le> ?i \<and> ?i < 2 ^ 31" by linarith
  then have i: "f32_to_int x = ?i"
    using finite_dy(3,4) [OF fx] unfolding f32_to_int_def Let_def by (simp only: if_True if_False simp_thms)
  show "0 \<le> f32_val x \<Longrightarrow>
           real_of_int (f32_to_int x) \<le> f32_val x \<and> f32_val x < real_of_int (f32_to_int x) + 1"
    unfolding i f32_val_def by (rule ftrunc_val(1) [OF fx])
  show "f32_val x \<le> 0 \<Longrightarrow>
           real_of_int (f32_to_int x) - 1 < f32_val x \<and> f32_val x \<le> real_of_int (f32_to_int x)"
    unfolding i f32_val_def by (rule ftrunc_val(2) [OF fx])
qed

lemma f32_compare:
  assumes "f32_finite x" "f32_finite y"
  shows "f32_lt x y \<longleftrightarrow> f32_val x < f32_val y"
    and "f32_ge x y \<longleftrightarrow> f32_val y \<le> f32_val x"
  using fless_val [OF assms [unfolded f32_finite_def]]
    finite_dy(3) [OF assms(1) [unfolded f32_finite_def]]
    finite_dy(3) [OF assms(2) [unfolded f32_finite_def]]
  by (auto simp add: f32_lt_def f32_ge_def f32_val_def)

lemma p2_neg_numeral: "(2::real) powr (- numeral n) = 1 / 2 ^ numeral n"
  by (rule powr_neg_numeral) simp

lemmas pattern_simps = p2_neg_numeral
  f32_val_def f64_val_def f32_finite_def f64_finite_def valof_def finite_of_def dy_of_def
  expo_of_def frac_of_def sign_of_def emin_def dy_val_def Let_def

lemma c_128: "f32_finite 0x43000000" "f32_val 0x43000000 = 128"
  by (simp_all add: pattern_simps)

lemma c_2m7: "f32_finite 0x3c000000" "f32_val 0x3c000000 = 1 / 128"
  by (simp_all add: pattern_simps)

lemma c_2m8: "f32_finite 0x3b800000" "f32_val 0x3b800000 = 1 / 256"
  "f32_finite 0xbb800000" "f32_val 0xbb800000 = - (1 / 256)"
  by (simp_all add: pattern_simps)

lemma d_2m7: "f64_finite 0x3f80000000000000" "f64_val 0x3f80000000000000 = 1 / 128"
  "snd (dy_of 11 52 (unat (0x3f80000000000000 :: 64 word))) = - 59"
  by (simp_all add: pattern_simps)

lemma expm1f_reduce_bound:
  assumes fx: "f32_finite x" and lo: "1 / 16 \<le> \<bar>f32_val x\<bar>" and hi: "\<bar>f32_val x\<bar> < 128"
  shows "f64_finite (snd (expm1f_reduce rm x)) \<and>
         - (1 / 256) \<le> f64_val (snd (expm1f_reduce rm x)) \<and>
         f64_val (snd (expm1f_reduce rm x)) < 1 / 256 \<and>
         f32_val x = real_of_int (fst (expm1f_reduce rm x)) / 128 + f64_val (snd (expm1f_reduce rm x))"
proof -
  define v where "v = f32_val x"
  define y1 where "y1 = f32_mul rm x 0x43000000"
  define i where "i = f32_to_int y1"
  define y2 where "y2 = int_to_f32 rm i"
  define y3 where "y3 = f32_mul rm y2 0x3c000000"
  define x1 where "x1 = f32_sub rm x y3"
  define xd where "xd = f32_to_f64 x1"
  define d where "d = v - real_of_int i / 128"
  let ?m = "fst (dy_of 8 23 (unat x))" and ?e = "snd (dy_of 8 23 (unat x))"
  note fx' = fx [unfolded f32_finite_def]
  have vabs: "\<bar>v\<bar> = real_of_int \<bar>?m\<bar> * 2 powr of_int ?e"
    by (simp add: v_def f32_val_def valof_def abs_dy_val)
  have lo': "1 / 16 \<le> \<bar>v\<bar>" and hi': "\<bar>v\<bar> < 128" using lo hi by (simp_all add: v_def)
  \<comment> \<open>the product with 128 is exact\<close>
  have y1: "f32_val y1 = v * 128 \<and> f32_finite y1"
  proof -
    have "(2::real) powr of_int ?e * 128 = 2 powr of_int ?e * 2 powr of_int 7" by simp
    also have "\<dots> = 2 powr of_int (?e + 7)" by (rule p2_mult) simp
    finally have "\<bar>f32_val x * f32_val 0x43000000\<bar> = real (nat \<bar>?m\<bar>) * 2 powr of_int (?e + 7)"
      using vabs by (simp add: c_128 v_def abs_mult)
    moreover have "nat \<bar>?m\<bar> < 2 ^ 24"
      using finite_dy(1) [OF fx'] by (simp add: nat_less_iff)
    moreover have "- 149 \<le> ?e + 7" using finite_dy(2) [OF fx'] by (simp add: emin_f32)
    moreover have "\<bar>f32_val x * f32_val 0x43000000\<bar> < 2 powr 127"
    proof -
      have "\<bar>f32_val x * f32_val 0x43000000\<bar> = \<bar>v\<bar> * 128" by (simp add: c_128 v_def abs_mult)
      also have "\<dots> < 128 * 128" using hi' by simp
      also have "\<dots> \<le> 2 powr 127" by simp
      finally show ?thesis .
    qed
    ultimately show ?thesis
      unfolding y1_def v_def
      using f32_mul_exact [OF fx c_128(1), of "nat \<bar>?m\<bar>" "?e + 7" rm] by (simp add: c_128)
  qed
  \<comment> \<open>the truncation\<close>
  have y1r: "\<bar>f32_val y1\<bar> < 2 ^ 31"
  proof -
    have "\<bar>f32_val y1\<bar> = \<bar>v\<bar> * 128" using y1 by (simp add: abs_mult)
    also have "\<dots> < 128 * 128" using hi' by simp
    finally show ?thesis by simp
  qed
  note tr = f32_to_int_val [OF conjunct2 [OF y1] y1r, folded i_def, unfolded conjunct1 [OF y1]]
  have i1: "\<bar>v * 128 - real_of_int i\<bar> < 1"
  proof (cases "0 \<le> v")
    case True
    then have "0 \<le> v * 128" by simp
    from tr(1) [OF this] show ?thesis by (simp add: abs_less_iff)
  next
    case False
    then have "v * 128 \<le> 0" by simp
    from tr(2) [OF this] show ?thesis by (simp add: abs_less_iff)
  qed
  have i2: "8 \<le> \<bar>i\<bar>"
  proof -
    have "8 \<le> \<bar>v\<bar> * 128" using lo' by simp
    then have "7 < \<bar>real_of_int i\<bar>" using i1 by linarith
    then have "real_of_int 7 < real_of_int \<bar>i\<bar>" by simp
    then have "7 < \<bar>i\<bar>" by (simp only: of_int_less_iff)
    then show ?thesis by simp
  qed
  have i3: "\<bar>i\<bar> < 2 ^ 24"
  proof -
    have "\<bar>real_of_int i\<bar> < \<bar>v\<bar> * 128 + 1" using i1 by linarith
    also have "\<dots> < 128 * 128 + 1" using hi' by simp
    finally have "real_of_int \<bar>i\<bar> < real_of_int (128 * 128 + 1)" by simp
    then have "\<bar>i\<bar> < 128 * 128 + 1" by (simp only: of_int_less_iff)
    then show ?thesis by simp
  qed
  \<comment> \<open>back to float and the product with \<open>2^-7\<close>\<close>
  note y2 = int_to_f32_exact [OF i3, of rm, folded y2_def]
  have y3: "f32_val y3 = real_of_int i / 128 \<and> f32_finite y3"
  proof -
    have "\<bar>f32_val y2 * f32_val 0x3c000000\<bar> = real (nat \<bar>i\<bar>) * 2 powr of_int (- 7)"
      by (simp add: y2 c_2m7 abs_mult p2_neg_numeral)
    moreover have "nat \<bar>i\<bar> < 2 ^ 24" using i3 by (simp add: nat_less_iff)
    moreover have "\<bar>f32_val y2 * f32_val 0x3c000000\<bar> < 2 powr 127"
    proof -
      have "\<bar>f32_val y2 * f32_val 0x3c000000\<bar> = real_of_int \<bar>i\<bar> / 128"
        by (simp add: y2 c_2m7 abs_mult)
      also have "\<dots> \<le> real_of_int \<bar>i\<bar>" by simp
      also have "\<dots> < real_of_int (2 ^ 24)" using i3 by (simp only: of_int_less_iff)
      also have "\<dots> = 2 ^ 24" by simp
      also have "\<dots> \<le> 2 powr 127" by simp
      finally show ?thesis .
    qed
    ultimately show ?thesis
      unfolding y3_def
      using f32_mul_exact [OF y2(2) c_2m7(1), of "nat \<bar>i\<bar>" "- 7" rm] by (simp add: y2 c_2m7)
  qed
  \<comment> \<open>the subtraction is exact\<close>
  have dabs: "\<bar>d\<bar> < 1 / 128"
  proof -
    have "d = (v * 128 - real_of_int i) / 128" by (simp add: d_def field_simps)
    then have "\<bar>d\<bar> = \<bar>v * 128 - real_of_int i\<bar> / 128" by simp
    then show ?thesis using i1 by simp
  qed
  have x1: "f32_val x1 = d \<and> f32_finite x1"
  proof -
    have "2 powr of_int (- 4) \<le> \<bar>valof 8 23 (unat x)\<bar>"
      using lo by (simp add: f32_val_def p2_neg_numeral)
    from expo_lower [OF fx' this] have e1: "- 27 \<le> ?e" by simp
    have "1 / 16 \<le> real_of_int \<bar>i\<bar> / 128"
    proof -
      have "real_of_int 8 \<le> real_of_int \<bar>i\<bar>" using i2 by (simp only: of_int_le_iff)
      then show ?thesis by simp
    qed
    moreover have "\<bar>valof 8 23 (unat y3)\<bar> = real_of_int \<bar>i\<bar> / 128"
      using conjunct1 [OF y3] unfolding f32_val_def by simp
    moreover have "(2::real) powr of_int (- 4) = 1 / 16" by (simp add: p2_neg_numeral)
    ultimately have "2 powr of_int (- 4) \<le> \<bar>valof 8 23 (unat y3)\<bar>" by (simp only:)
    from expo_lower [OF conjunct2 [OF y3, unfolded f32_finite_def] this]
    have e2: "- 27 \<le> snd (dy_of 8 23 (unat y3))" by simp
    have dd: "f32_val x - f32_val y3 = d"
      unfolding d_def v_def conjunct1 [OF y3] by (rule refl)
    have "\<bar>d\<bar> < 1 / 8" using dabs by linarith
    moreover have "(2::real) powr of_int (- 27 + 24) = 1 / 8" by (simp add: p2_neg_numeral)
    ultimately have sm: "\<bar>f32_val x - f32_val y3\<bar> < 2 powr of_int (- 27 + 24)"
      unfolding dd by (simp only:)
    have no: "\<bar>f32_val x - f32_val y3\<bar> < 2 powr 127"
    proof -
      have "\<bar>d\<bar> < 1" using dabs by linarith
      also have "(1::real) \<le> 2 powr 127" by simp
      finally show ?thesis unfolding dd .
    qed
    from f32_sub_exact_small [OF fx conjunct2 [OF y3] e1 e2 sm no, of rm]
    show ?thesis unfolding dd x1_def by simp
  qed
  note xd = f32_to_f64_exact [OF conjunct2 [OF x1], folded xd_def, unfolded conjunct1 [OF x1]]
  note cmp = f32_compare [OF conjunct2 [OF x1], unfolded conjunct1 [OF x1]]
  have ge: "f32_ge x1 0x3b800000 \<longleftrightarrow> 1 / 256 \<le> d"
    using cmp(2) [OF c_2m8(1)] by (simp add: c_2m8)
  have lt: "f32_lt x1 0xbb800000 \<longleftrightarrow> d < - (1 / 256)"
    using cmp(1) [OF c_2m8(3)] by (simp add: c_2m8)
  have red: "expm1f_reduce rm x =
     (if 1 / 256 \<le> d then (i + 1, f64_sub rm xd 0x3f80000000000000)
      else if d < - (1 / 256) then (i - 1, f64_add rm xd 0x3f80000000000000)
      else (i, xd))"
    unfolding expm1f_reduce_def Let_def y1_def [symmetric] i_def [symmetric] y2_def [symmetric]
      y3_def [symmetric] x1_def [symmetric] xd_def [symmetric] ge lt
    by simp
  have vd: "v = real_of_int i / 128 + d" by (simp add: d_def)
  consider (up) "1 / 256 \<le> d" | (down) "d < - (1 / 256)" | (mid) "- (1 / 256) \<le> d" "d < 1 / 256"
    by linarith
  then show ?thesis
  proof cases
    case up
    have "2 powr of_int (- 8) \<le> \<bar>valof 11 52 (unat xd)\<bar>"
      using up xd(1) by (simp add: f64_val_def p2_neg_numeral)
    from expo_lower [OF xd(2) [unfolded f64_finite_def] this]
    have e1: "- 60 \<le> snd (dy_of 11 52 (unat xd))" by simp
    have e2: "- 60 \<le> snd (dy_of 11 52 (unat (0x3f80000000000000 :: 64 word)))"
      unfolding d_2m7(3) by simp
    have sm: "\<bar>f64_val xd - f64_val 0x3f80000000000000\<bar> < 2 powr of_int (- 60 + 53)"
      using up dabs by (simp add: xd d_2m7 p2_neg_numeral abs_less_iff)
    have no: "\<bar>f64_val xd - f64_val 0x3f80000000000000\<bar> < 2 powr 1023"
    proof -
      have "\<bar>f64_val xd - f64_val 0x3f80000000000000\<bar> < 1"
        using up dabs by (simp add: xd d_2m7 abs_less_iff)
      also have "(1::real) \<le> 2 powr 1023" by simp
      finally show ?thesis .
    qed
    from f64_sub_exact_small [OF xd(2) d_2m7(1) e1 e2 sm no, of rm]
    have r: "f64_val (f64_sub rm xd 0x3f80000000000000) = d - 1 / 128"
      "f64_finite (f64_sub rm xd 0x3f80000000000000)"
      by (simp_all add: xd d_2m7)
    show ?thesis
      unfolding red v_def [symmetric] using up dabs r vd by (simp add: abs_less_iff field_simps)
  next
    case down
    have "2 powr of_int (- 8) \<le> \<bar>valof 11 52 (unat xd)\<bar>"
      using down xd(1) by (simp add: f64_val_def p2_neg_numeral)
    from expo_lower [OF xd(2) [unfolded f64_finite_def] this]
    have e1: "- 60 \<le> snd (dy_of 11 52 (unat xd))" by simp
    have e2: "- 60 \<le> snd (dy_of 11 52 (unat (0x3f80000000000000 :: 64 word)))"
      unfolding d_2m7(3) by simp
    have sm: "\<bar>f64_val xd + f64_val 0x3f80000000000000\<bar> < 2 powr of_int (- 60 + 53)"
      using down dabs by (simp add: xd d_2m7 p2_neg_numeral abs_less_iff)
    have no: "\<bar>f64_val xd + f64_val 0x3f80000000000000\<bar> < 2 powr 1023"
    proof -
      have "\<bar>f64_val xd + f64_val 0x3f80000000000000\<bar> < 1"
        using down dabs by (simp add: xd d_2m7 abs_less_iff)
      also have "(1::real) \<le> 2 powr 1023" by simp
      finally show ?thesis .
    qed
    from f64_add_exact_small [OF xd(2) d_2m7(1) e1 e2 sm no, of rm]
    have r: "f64_val (f64_add rm xd 0x3f80000000000000) = d + 1 / 128"
      "f64_finite (f64_add rm xd 0x3f80000000000000)"
      by (simp_all add: xd d_2m7)
    show ?thesis
      unfolding red v_def [symmetric] using down dabs r vd by (simp add: abs_less_iff field_simps)
  next
    case mid
    show ?thesis
      unfolding red v_def [symmetric] using mid xd vd by simp
  qed
qed

text \<open>
  Claim C8. In the general path of \<^verbatim>\<open>expm1f\<close> (every finite input with \<open>2^-4 \<le> |x|\<close> and
  \<open>-18 < x < 89\<close>), the residual \<open>lo\<close> that the range reduction hands to the polynomial,
  after the two boundary checks, is a finite double with \<open>-2^-8 \<le> lo < 2^-8\<close>, and the
  decomposition is exact: \<open>x = x_hi * 2^-7 + lo\<close> for the adjusted index \<open>x_hi\<close>. This holds
  under every rounding mode.
\<close>

theorem expm1f_residual_bound:
  "f32_finite x \<Longrightarrow> 1 / 16 \<le> \<bar>f32_val x\<bar> \<Longrightarrow> - 18 < f32_val x \<Longrightarrow> f32_val x < 89 \<Longrightarrow>
   f64_finite (snd (expm1f_reduce rm x)) \<and>
   - (1 / 256) \<le> f64_val (snd (expm1f_reduce rm x)) \<and>
   f64_val (snd (expm1f_reduce rm x)) < 1 / 256 \<and>
   f32_val x = real_of_int (fst (expm1f_reduce rm x)) / 128 + f64_val (snd (expm1f_reduce rm x))"
proof -
  assume a: "f32_finite x" "1 / 16 \<le> \<bar>f32_val x\<bar>" "- 18 < f32_val x" "f32_val x < 89"
  then have "\<bar>f32_val x\<bar> < 128" by linarith
  with a(1,2) show ?thesis by (rule expm1f_reduce_bound)
qed

theorem expm1f_residual_bound_witness:
  "f32_finite 0x3f8ccccd \<and> 1 / 16 \<le> \<bar>f32_val 0x3f8ccccd\<bar> \<and> - 18 < f32_val 0x3f8ccccd \<and>
   f32_val 0x3f8ccccd < 89 \<and>
   f64_finite (snd (expm1f_reduce FE_UPWARD 0x3f8ccccd)) \<and>
   - (1 / 256) \<le> f64_val (snd (expm1f_reduce FE_UPWARD 0x3f8ccccd)) \<and>
   f64_val (snd (expm1f_reduce FE_UPWARD 0x3f8ccccd)) < 1 / 256"
  using expm1f_residual_bound [of "0x3f8ccccd" FE_UPWARD]
  by (simp add: pattern_simps)

section \<open>Rounding errors and the smallest arguments of expf\<close>

text \<open>A single rounding moves a value by at most one unit of the last place of the result.\<close>

lemma fround_error:
  fixes a ew mw :: nat and e :: int and rm :: rounding and neg :: bool
  assumes ew: "2 \<le> ew" and a: "0 < a"
    and noovf: "real a * 2 powr of_int e < 2 powr of_int (emin ew mw + int mw + 2 ^ ew - 3)"
  shows "\<bar>valof ew mw (fround ew mw rm neg a e) - (if neg then - 1 else 1) * (real a * 2 powr of_int e)\<bar>
           \<le> real a * 2 powr of_int e * 2 powr of_int (- int mw) + 2 powr of_int (emin ew mw)"
    and "finite_of ew mw (fround ew mw rm neg a e)"
    and "sign_of ew mw (fround ew mw rm neg a e) = neg"
proof -
  define q where "q = max (emin ew mw) (e + bitlen (int a) - int (mw + 1))"
  define t where "t = (if q \<le> e then a * 2 ^ nat (e - q) else a div 2 ^ nat (q - e))"
  define r where "r = (if q \<le> e then 0 else a mod 2 ^ nat (q - e))"
  define t' where "t' = (if round_away rm neg t r (2 ^ nat (q - e)) then t + 1 else t)"
  define A where "A = real a * 2 powr of_int e"
  note st = fround_struct [OF a, where ew = ew and mw = mw and e = e, folded q_def, folded t_def r_def]
  note res = fround_result [OF ew a noovf, where rm = rm and neg = neg, folded q_def, folded t_def r_def,
      folded t'_def]
  show "finite_of ew mw (fround ew mw rm neg a e)" by (rule res(2))
  show "sign_of ew mw (fround ew mw rm neg a e) = neg" by (rule res(3))
  have A0: "0 \<le> A" by (simp add: A_def)
  have Aeq: "A = (real t + real r / 2 ^ nat (q - e)) * 2 powr of_int q"
    unfolding A_def by (rule st(3))
  have rd: "0 \<le> real r / 2 ^ nat (q - e)" "real r / 2 ^ nat (q - e) < 1"
  proof -
    show "0 \<le> real r / 2 ^ nat (q - e)" by simp
    have "real r < real ((2::nat) ^ nat (q - e))" using st(4) by (simp only: of_nat_less_iff)
    then show "real r / 2 ^ nat (q - e) < 1" by simp
  qed
  have tt: "real t' = real t \<or> real t' = real t + 1" by (simp add: t'_def)
  have "\<bar>real t' - (real t + real r / 2 ^ nat (q - e))\<bar> \<le> 1"
  proof (rule disjE [OF tt])
    assume "real t' = real t"
    then show ?thesis using rd by linarith
  next
    assume "real t' = real t + 1"
    then show ?thesis using rd by linarith
  qed
  then have "\<bar>real t' - (real t + real r / 2 ^ nat (q - e))\<bar> * 2 powr of_int q \<le> 1 * 2 powr of_int q"
    by (rule mult_right_mono) simp
  moreover have "real t' * 2 powr of_int q - A =
      (real t' - (real t + real r / 2 ^ nat (q - e))) * 2 powr of_int q"
    unfolding Aeq by (simp only: left_diff_distrib)
  then have "\<bar>real t' * 2 powr of_int q - A\<bar> =
      \<bar>real t' - (real t + real r / 2 ^ nat (q - e))\<bar> * 2 powr of_int q"
    by (simp only: abs_mult) simp
  ultimately have d1: "\<bar>real t' * 2 powr of_int q - A\<bar> \<le> 2 powr of_int q"
    by simp
  have q2: "2 powr of_int q \<le> A * 2 powr of_int (- int mw) + 2 powr of_int (emin ew mw)"
  proof (cases "emin ew mw < q")
    case False
    then have "q = emin ew mw" by (simp add: q_def)
    then show ?thesis using A0 by simp
  next
    case True
    have "(2::real) powr of_int q = 2 powr of_int (int mw) * 2 powr of_int q * 2 powr of_int (- int mw)"
      by (simp add: powr_add [symmetric])
    also have "2 powr of_int (int mw) * 2 powr of_int q \<le> real t * 2 powr of_int q"
      by (rule mult_right_mono [OF nat_ge_pow2D [OF st(2) [OF True]]]) simp
    also have "real t * 2 powr of_int q \<le> A"
      unfolding Aeq by (rule mult_right_mono) (use rd in simp_all)
    finally have "2 powr of_int q \<le> A * 2 powr of_int (- int mw)" by simp
    then show ?thesis by (simp add: add_increasing2)
  qed
  have "valof ew mw (fround ew mw rm neg a e) - (if neg then - 1 else 1) * A =
        (if neg then - 1 else 1) * (real t' * 2 powr of_int q - A)"
    unfolding res(1) by (simp add: algebra_simps)
  then have "\<bar>valof ew mw (fround ew mw rm neg a e) - (if neg then - 1 else 1) * A\<bar> =
        \<bar>real t' * 2 powr of_int q - A\<bar>"
    by (simp add: abs_mult)
  then show "\<bar>valof ew mw (fround ew mw rm neg a e) - (if neg then - 1 else 1) * (real a * 2 powr of_int e)\<bar>
           \<le> real a * 2 powr of_int e * 2 powr of_int (- int mw) + 2 powr of_int (emin ew mw)"
    using d1 q2 unfolding A_def by linarith
qed

lemma fround_dy_error:
  fixes ew mw :: nat
  assumes ew: "2 \<le> ew"
    and noovf: "\<bar>dy_val v\<bar> < 2 powr of_int (emin ew mw + int mw + 2 ^ ew - 3)"
  shows "\<bar>valof ew mw (fround_dy ew mw rm v) - dy_val v\<bar>
           \<le> \<bar>dy_val v\<bar> * 2 powr of_int (- int mw) + 2 powr of_int (emin ew mw)"
    and "finite_of ew mw (fround_dy ew mw rm v)"
proof -
  let ?a = "nat \<bar>fst v\<bar>"
  have av: "real ?a * 2 powr of_int (snd v) = \<bar>dy_val v\<bar>"
    by (simp add: abs_dy_val)
  show "\<bar>valof ew mw (fround_dy ew mw rm v) - dy_val v\<bar>
           \<le> \<bar>dy_val v\<bar> * 2 powr of_int (- int mw) + 2 powr of_int (emin ew mw)"
   and "finite_of ew mw (fround_dy ew mw rm v)"
  proof (atomize (full), cases "fst v = 0")
    case True
    then have "dy_val v = 0" by (simp add: dy_val_def)
    then show "\<bar>valof ew mw (fround_dy ew mw rm v) - dy_val v\<bar>
           \<le> \<bar>dy_val v\<bar> * 2 powr of_int (- int mw) + 2 powr of_int (emin ew mw) \<and>
        finite_of ew mw (fround_dy ew mw rm v)"
      using True fround_zero [OF ew, of mw rm "fst v < 0" "snd v"]
      by (simp add: fround_dy_def)
  next
    case False
    then have a: "0 < ?a" by simp
    have no': "real ?a * 2 powr of_int (snd v) < 2 powr of_int (emin ew mw + int mw + 2 ^ ew - 3)"
      using noovf av by simp
    note er = fround_error [OF ew a no', of rm "fst v < 0"]
    have "(if fst v < 0 then - 1 else 1) * \<bar>dy_val v\<bar> = dy_val v"
      by (simp add: dy_val_def abs_mult mult_less_0_iff zero_le_mult_iff not_less)
    then show "\<bar>valof ew mw (fround_dy ew mw rm v) - dy_val v\<bar>
           \<le> \<bar>dy_val v\<bar> * 2 powr of_int (- int mw) + 2 powr of_int (emin ew mw) \<and>
        finite_of ew mw (fround_dy ew mw rm v)"
      using er(1,2) unfolding av fround_dy_def by simp
  qed
qed

lemma fadd_error:
  fixes ew mw :: nat
  assumes ew: "2 \<le> ew" and fx: "finite_of ew mw x" and fy: "finite_of ew mw y"
    and noovf: "\<bar>valof ew mw x + valof ew mw y\<bar> < 2 powr of_int (emin ew mw + int mw + 2 ^ ew - 3)"
  shows "\<bar>valof ew mw (fadd ew mw rm x y) - (valof ew mw x + valof ew mw y)\<bar>
           \<le> \<bar>valof ew mw x + valof ew mw y\<bar> * 2 powr of_int (- int mw) + 2 powr of_int (emin ew mw)"
    and "finite_of ew mw (fadd ew mw rm x y)"
proof -
  let ?v = "dy_add (dy_of ew mw x) (dy_of ew mw y)"
  have v: "dy_val ?v = valof ew mw x + valof ew mw y" by (simp add: dy_val_add valof_def)
  have f: "fadd ew mw rm x y =
    (if fst ?v = 0 then zero_sum ew mw rm (sign_of ew mw x) (sign_of ew mw y) else fround_dy ew mw rm ?v)"
    using finite_dy(3,4) [OF fx] finite_dy(3,4) [OF fy] by (simp add: fadd_def Let_def)
  show "\<bar>valof ew mw (fadd ew mw rm x y) - (valof ew mw x + valof ew mw y)\<bar>
           \<le> \<bar>valof ew mw x + valof ew mw y\<bar> * 2 powr of_int (- int mw) + 2 powr of_int (emin ew mw)"
   and "finite_of ew mw (fadd ew mw rm x y)"
  proof (atomize (full), cases "fst ?v = 0")
    case True
    then have "dy_val ?v = 0" by (simp add: dy_val_def)
    then show "\<bar>valof ew mw (fadd ew mw rm x y) - (valof ew mw x + valof ew mw y)\<bar>
           \<le> \<bar>valof ew mw x + valof ew mw y\<bar> * 2 powr of_int (- int mw) + 2 powr of_int (emin ew mw) \<and>
        finite_of ew mw (fadd ew mw rm x y)"
      using True sign_bit_val [OF ew, of mw] unfolding f v by (simp add: zero_sum_def)
  next
    case False
    note er = fround_dy_error [OF ew, of ?v mw rm, unfolded v, OF noovf]
    show "\<bar>valof ew mw (fadd ew mw rm x y) - (valof ew mw x + valof ew mw y)\<bar>
           \<le> \<bar>valof ew mw x + valof ew mw y\<bar> * 2 powr of_int (- int mw) + 2 powr of_int (emin ew mw) \<and>
        finite_of ew mw (fadd ew mw rm x y)"
      using False er unfolding f by simp
  qed
qed

lemma fmul_error:
  fixes ew mw :: nat
  assumes ew: "2 \<le> ew" and fx: "finite_of ew mw x" and fy: "finite_of ew mw y"
    and noovf: "\<bar>valof ew mw x * valof ew mw y\<bar> < 2 powr of_int (emin ew mw + int mw + 2 ^ ew - 3)"
  shows "\<bar>valof ew mw (fmul ew mw rm x y) - valof ew mw x * valof ew mw y\<bar>
           \<le> \<bar>valof ew mw x * valof ew mw y\<bar> * 2 powr of_int (- int mw) + 2 powr of_int (emin ew mw)"
    and "finite_of ew mw (fmul ew mw rm x y)"
proof -
  let ?v = "dy_mul (dy_of ew mw x) (dy_of ew mw y)"
  let ?neg = "sign_of ew mw x \<noteq> sign_of ew mw y"
  let ?a = "nat \<bar>fst ?v\<bar>"
  have v: "dy_val ?v = valof ew mw x * valof ew mw y" by (simp add: dy_val_mul valof_def)
  have av: "real ?a * 2 powr of_int (snd ?v) = \<bar>dy_val ?v\<bar>" by (simp add: abs_dy_val)
  have f: "fmul ew mw rm x y = fround ew mw rm ?neg ?a (snd ?v)"
    using finite_dy(3,4) [OF fx] finite_dy(3,4) [OF fy] by (simp add: fmul_def Let_def)
  show "\<bar>valof ew mw (fmul ew mw rm x y) - valof ew mw x * valof ew mw y\<bar>
           \<le> \<bar>valof ew mw x * valof ew mw y\<bar> * 2 powr of_int (- int mw) + 2 powr of_int (emin ew mw)"
   and "finite_of ew mw (fmul ew mw rm x y)"
  proof (atomize (full), cases "fst ?v = 0")
    case True
    then have "dy_val ?v = 0" by (simp add: dy_val_def)
    then have z0: "valof ew mw x * valof ew mw y = 0" by (simp only: v)
    have a0: "nat \<bar>fst ?v\<bar> = 0" using True by simp
    show "\<bar>valof ew mw (fmul ew mw rm x y) - valof ew mw x * valof ew mw y\<bar>
           \<le> \<bar>valof ew mw x * valof ew mw y\<bar> * 2 powr of_int (- int mw) + 2 powr of_int (emin ew mw) \<and>
        finite_of ew mw (fmul ew mw rm x y)"
      unfolding f z0 a0 using fround_zero [OF ew, of mw rm ?neg "snd ?v"] by simp
  next
    case False
    then have a: "0 < ?a" by simp
    have nz: "fst (dy_of ew mw x) \<noteq> 0" "fst (dy_of ew mw y) \<noteq> 0"
      using False by (simp_all add: dy_mul_def)
    have sx: "sign_of ew mw x \<longleftrightarrow> fst (dy_of ew mw x) < 0"
      using finite_dy(5,6) [OF fx] nz(1) by (cases "sign_of ew mw x") auto
    have sy: "sign_of ew mw y \<longleftrightarrow> fst (dy_of ew mw y) < 0"
      using finite_dy(5,6) [OF fy] nz(2) by (cases "sign_of ew mw y") auto
    have neg: "?neg \<longleftrightarrow> fst ?v < 0"
      unfolding sx sy using nz by (auto simp add: dy_mul_def mult_less_0_iff)
    have no': "real ?a * 2 powr of_int (snd ?v) < 2 powr of_int (emin ew mw + int mw + 2 ^ ew - 3)"
      using noovf av v by simp
    note er = fround_error [OF ew a no', of rm ?neg]
    have "(if fst ?v < 0 then - 1 else 1) * \<bar>dy_val ?v\<bar> = dy_val ?v"
      by (simp add: dy_val_def abs_mult mult_less_0_iff zero_le_mult_iff not_less)
    then have "(if ?neg then - 1 else 1) * \<bar>dy_val ?v\<bar> = dy_val ?v"
      unfolding neg .
    then show "\<bar>valof ew mw (fmul ew mw rm x y) - valof ew mw x * valof ew mw y\<bar>
           \<le> \<bar>valof ew mw x * valof ew mw y\<bar> * 2 powr of_int (- int mw) + 2 powr of_int (emin ew mw) \<and>
        finite_of ew mw (fmul ew mw rm x y)"
      using er(1,2) unfolding av f v by simp
  qed
qed

lemma ffma_error:
  fixes ew mw :: nat
  assumes ew: "2 \<le> ew" and fx: "finite_of ew mw x" and fy: "finite_of ew mw y"
    and fz: "finite_of ew mw z"
    and noovf: "\<bar>valof ew mw x * valof ew mw y + valof ew mw z\<bar>
                  < 2 powr of_int (emin ew mw + int mw + 2 ^ ew - 3)"
  shows "\<bar>valof ew mw (ffma ew mw rm x y z) - (valof ew mw x * valof ew mw y + valof ew mw z)\<bar>
           \<le> \<bar>valof ew mw x * valof ew mw y + valof ew mw z\<bar> * 2 powr of_int (- int mw)
               + 2 powr of_int (emin ew mw)"
    and "finite_of ew mw (ffma ew mw rm x y z)"
proof -
  let ?v = "dy_add (dy_mul (dy_of ew mw x) (dy_of ew mw y)) (dy_of ew mw z)"
  let ?neg = "sign_of ew mw x \<noteq> sign_of ew mw y"
  have v: "dy_val ?v = valof ew mw x * valof ew mw y + valof ew mw z"
    by (simp add: dy_val_add dy_val_mul valof_def)
  have f: "ffma ew mw rm x y z =
    (if fst ?v = 0 then zero_sum ew mw rm ?neg (sign_of ew mw z) else fround_dy ew mw rm ?v)"
    using finite_dy(3,4) [OF fx] finite_dy(3,4) [OF fy] finite_dy(3,4) [OF fz]
    by (simp add: ffma_def Let_def)
  show "\<bar>valof ew mw (ffma ew mw rm x y z) - (valof ew mw x * valof ew mw y + valof ew mw z)\<bar>
           \<le> \<bar>valof ew mw x * valof ew mw y + valof ew mw z\<bar> * 2 powr of_int (- int mw)
               + 2 powr of_int (emin ew mw)"
   and "finite_of ew mw (ffma ew mw rm x y z)"
  proof (atomize (full), cases "fst ?v = 0")
    case True
    then have "dy_val ?v = 0" by (simp add: dy_val_def)
    then show "\<bar>valof ew mw (ffma ew mw rm x y z) - (valof ew mw x * valof ew mw y + valof ew mw z)\<bar>
           \<le> \<bar>valof ew mw x * valof ew mw y + valof ew mw z\<bar> * 2 powr of_int (- int mw)
               + 2 powr of_int (emin ew mw) \<and>
        finite_of ew mw (ffma ew mw rm x y z)"
      using True sign_bit_val [OF ew, of mw] unfolding f v by (simp add: zero_sum_def)
  next
    case False
    note er = fround_dy_error [OF ew, of ?v mw rm, unfolded v, OF noovf]
    show "\<bar>valof ew mw (ffma ew mw rm x y z) - (valof ew mw x * valof ew mw y + valof ew mw z)\<bar>
           \<le> \<bar>valof ew mw x * valof ew mw y + valof ew mw z\<bar> * 2 powr of_int (- int mw)
               + 2 powr of_int (emin ew mw) \<and>
        finite_of ew mw (ffma ew mw rm x y z)"
      using False er unfolding f by simp
  qed
qed

text \<open>The same bounds for the operations on doubles, and one step of Horner's scheme.\<close>

lemma eta_f64: "(2::real) powr of_int (emin 11 52) \<le> 1 / 2 ^ 80"
proof -
  have "(2::real) powr of_int (emin 11 52) \<le> 2 powr of_int (- 80)"
    by (rule p2_le) (simp add: emin_f64)
  then show ?thesis by (simp add: p2_neg_numeral)
qed

lemma big_f64:
  assumes "\<bar>z\<bar> \<le> (4::real)"
  shows "\<bar>z\<bar> < 2 powr of_int (emin 11 52 + int 52 + 2 ^ 11 - 3)"
proof -
  have "\<bar>z\<bar> < 2 powr of_int 3" using assms by simp
  also have "\<dots> \<le> 2 powr of_int (emin 11 52 + int 52 + 2 ^ 11 - 3)"
    by (rule p2_le) (simp add: emin_f64)
  finally show ?thesis .
qed

lemma f64_mul_error:
  assumes "f64_finite x" "f64_finite y" "\<bar>f64_val x * f64_val y\<bar> \<le> 4"
  shows "f64_finite (f64_mul rm x y)"
    and "\<bar>f64_val (f64_mul rm x y) - f64_val x * f64_val y\<bar>
           \<le> \<bar>f64_val x * f64_val y\<bar> / 2 ^ 52 + 1 / 2 ^ 80"
proof -
  have ew: "(2::nat) \<le> 11" by simp
  note no = big_f64 [OF assms(3), unfolded f64_val_def]
  note er = fmul_error [OF ew assms(1,2) [unfolded f64_finite_def] no, of rm]
  show "f64_finite (f64_mul rm x y)"
    using er(2) by (simp add: f64_finite_def f64_mul_def f64_wrap)
  have "\<bar>f64_val (f64_mul rm x y) - f64_val x * f64_val y\<bar>
      \<le> \<bar>f64_val x * f64_val y\<bar> * 2 powr of_int (- int 52) + 2 powr of_int (emin 11 52)"
    using er by (simp add: f64_val_def f64_mul_def f64_wrap)
  also have "\<bar>f64_val x * f64_val y\<bar> * 2 powr of_int (- int 52) = \<bar>f64_val x * f64_val y\<bar> / 2 ^ 52"
    by (simp add: p2_neg_numeral)
  finally show "\<bar>f64_val (f64_mul rm x y) - f64_val x * f64_val y\<bar>
           \<le> \<bar>f64_val x * f64_val y\<bar> / 2 ^ 52 + 1 / 2 ^ 80"
    using eta_f64 by linarith
qed

lemma f64_add_error:
  assumes "f64_finite x" "f64_finite y" "\<bar>f64_val x + f64_val y\<bar> \<le> 4"
  shows "f64_finite (f64_add rm x y)"
    and "\<bar>f64_val (f64_add rm x y) - (f64_val x + f64_val y)\<bar>
           \<le> \<bar>f64_val x + f64_val y\<bar> / 2 ^ 52 + 1 / 2 ^ 80"
proof -
  have ew: "(2::nat) \<le> 11" by simp
  note no = big_f64 [OF assms(3), unfolded f64_val_def]
  note er = fadd_error [OF ew assms(1,2) [unfolded f64_finite_def] no, of rm]
  show "f64_finite (f64_add rm x y)"
    using er(2) by (simp add: f64_finite_def f64_add_def f64_wrap)
  have "\<bar>f64_val (f64_add rm x y) - (f64_val x + f64_val y)\<bar>
      \<le> \<bar>f64_val x + f64_val y\<bar> * 2 powr of_int (- int 52) + 2 powr of_int (emin 11 52)"
    using er by (simp add: f64_val_def f64_add_def f64_wrap)
  also have "\<bar>f64_val x + f64_val y\<bar> * 2 powr of_int (- int 52) = \<bar>f64_val x + f64_val y\<bar> / 2 ^ 52"
    by (simp add: p2_neg_numeral)
  finally show "\<bar>f64_val (f64_add rm x y) - (f64_val x + f64_val y)\<bar>
           \<le> \<bar>f64_val x + f64_val y\<bar> / 2 ^ 52 + 1 / 2 ^ 80"
    using eta_f64 by linarith
qed

lemma f64_fma_error:
  assumes "f64_finite x" "f64_finite y" "f64_finite z" "\<bar>f64_val x * f64_val y + f64_val z\<bar> \<le> 4"
  shows "f64_finite (f64_fma rm x y z)"
    and "\<bar>f64_val (f64_fma rm x y z) - (f64_val x * f64_val y + f64_val z)\<bar>
           \<le> \<bar>f64_val x * f64_val y + f64_val z\<bar> / 2 ^ 52 + 1 / 2 ^ 80"
proof -
  have ew: "(2::nat) \<le> 11" by simp
  note no = big_f64 [OF assms(4), unfolded f64_val_def]
  note er = ffma_error [OF ew assms(1,2,3) [unfolded f64_finite_def] no, of rm]
  show "f64_finite (f64_fma rm x y z)"
    using er(2) by (simp add: f64_finite_def f64_fma_def f64_wrap)
  have "\<bar>f64_val (f64_fma rm x y z) - (f64_val x * f64_val y + f64_val z)\<bar>
      \<le> \<bar>f64_val x * f64_val y + f64_val z\<bar> * 2 powr of_int (- int 52) + 2 powr of_int (emin 11 52)"
    using er by (simp add: f64_val_def f64_fma_def f64_wrap)
  also have "\<bar>f64_val x * f64_val y + f64_val z\<bar> * 2 powr of_int (- int 52) =
      \<bar>f64_val x * f64_val y + f64_val z\<bar> / 2 ^ 52"
    by (simp add: p2_neg_numeral)
  finally show "\<bar>f64_val (f64_fma rm x y z) - (f64_val x * f64_val y + f64_val z)\<bar>
           \<le> \<bar>f64_val x * f64_val y + f64_val z\<bar> / 2 ^ 52 + 1 / 2 ^ 80"
    using eta_f64 by linarith
qed

lemma ra_fma:
  fixes P c r :: real
  assumes "\<bar>P\<bar> \<le> 1 / 2 ^ 24" "\<bar>c\<bar> \<le> 1"
  shows "\<bar>P + c\<bar> \<le> 4"
    and "\<bar>r - (P + c)\<bar> \<le> \<bar>P + c\<bar> / 2 ^ 52 + 1 / 2 ^ 80 \<Longrightarrow> \<bar>r - (P + c)\<bar> \<le> 1 / 2 ^ 51"
proof -
  have z: "\<bar>P + c\<bar> \<le> 1 + 1 / 2 ^ 24" using assms unfolding abs_le_iff by simp
  then show "\<bar>P + c\<bar> \<le> 4" by simp
  assume "\<bar>r - (P + c)\<bar> \<le> \<bar>P + c\<bar> / 2 ^ 52 + 1 / 2 ^ 80"
  moreover have "\<bar>P + c\<bar> / 2 ^ 52 \<le> (1 + 1 / 2 ^ 24) / 2 ^ 52"
    by (rule divide_right_mono [OF z]) simp
  ultimately show "\<bar>r - (P + c)\<bar> \<le> 1 / 2 ^ 51" by simp
qed

lemma ra_mul:
  fixes P c m r :: real
  assumes "\<bar>P\<bar> \<le> 1 / 2 ^ 24" "\<bar>c\<bar> \<le> 1"
  shows "\<bar>P\<bar> \<le> 4"
    and "\<bar>m - P\<bar> \<le> \<bar>P\<bar> / 2 ^ 52 + 1 / 2 ^ 80 \<Longrightarrow> \<bar>m + c\<bar> \<le> 4"
    and "\<bar>m - P\<bar> \<le> \<bar>P\<bar> / 2 ^ 52 + 1 / 2 ^ 80 \<Longrightarrow>
         \<bar>r - (m + c)\<bar> \<le> \<bar>m + c\<bar> / 2 ^ 52 + 1 / 2 ^ 80 \<Longrightarrow> \<bar>r - (P + c)\<bar> \<le> 1 / 2 ^ 51"
proof -
  show "\<bar>P\<bar> \<le> 4" using assms(1) by simp
  have m1: "\<bar>m - P\<bar> \<le> 1 / 2 ^ 75" if "\<bar>m - P\<bar> \<le> \<bar>P\<bar> / 2 ^ 52 + 1 / 2 ^ 80"
  proof -
    have "\<bar>P\<bar> / 2 ^ 52 \<le> (1 / 2 ^ 24) / 2 ^ 52"
      by (rule divide_right_mono [OF assms(1)]) simp
    then show ?thesis using that by simp
  qed
  have s: "\<bar>m + c\<bar> \<le> 1 + 1 / 2 ^ 23" if "\<bar>m - P\<bar> \<le> \<bar>P\<bar> / 2 ^ 52 + 1 / 2 ^ 80"
    using m1 [OF that] assms unfolding abs_le_iff by simp
  show "\<bar>m + c\<bar> \<le> 4" if "\<bar>m - P\<bar> \<le> \<bar>P\<bar> / 2 ^ 52 + 1 / 2 ^ 80"
    using s [OF that] by simp
  show "\<bar>r - (P + c)\<bar> \<le> 1 / 2 ^ 51"
    if a: "\<bar>m - P\<bar> \<le> \<bar>P\<bar> / 2 ^ 52 + 1 / 2 ^ 80"
      and b: "\<bar>r - (m + c)\<bar> \<le> \<bar>m + c\<bar> / 2 ^ 52 + 1 / 2 ^ 80"
  proof -
    have "\<bar>m + c\<bar> / 2 ^ 52 \<le> (1 + 1 / 2 ^ 23) / 2 ^ 52"
      by (rule divide_right_mono [OF s [OF a]]) simp
    then have "\<bar>r - (m + c)\<bar> \<le> 1 / 2 ^ 52 + 1 / 2 ^ 74" using b by simp
    then show ?thesis using m1 [OF a] unfolding abs_le_iff by simp
  qed
qed

lemma multiply_add_error:
  assumes fx: "f64_finite x" and fp: "f64_finite p" and fc: "f64_finite c"
    and bx: "\<bar>f64_val x\<bar> \<le> 1 / 2 ^ 25" and bp: "\<bar>f64_val p\<bar> \<le> 2" and bc: "\<bar>f64_val c\<bar> \<le> 1"
  shows "f64_finite (multiply_add fma rm x p c)"
    and "\<bar>f64_val (multiply_add fma rm x p c) - (f64_val x * f64_val p + f64_val c)\<bar> \<le> 1 / 2 ^ 51"
proof -
  have "\<bar>f64_val x\<bar> * \<bar>f64_val p\<bar> \<le> 1 / 2 ^ 25 * 2"
    by (rule mult_mono [OF bx bp]) simp_all
  then have P: "\<bar>f64_val x * f64_val p\<bar> \<le> 1 / 2 ^ 24" by (simp add: abs_mult)
  show "f64_finite (multiply_add fma rm x p c)"
   and "\<bar>f64_val (multiply_add fma rm x p c) - (f64_val x * f64_val p + f64_val c)\<bar> \<le> 1 / 2 ^ 51"
  proof (atomize (full), cases fma)
    case True
    note er = f64_fma_error [OF fx fp fc ra_fma(1) [OF P bc], of rm]
    show "f64_finite (multiply_add fma rm x p c) \<and>
        \<bar>f64_val (multiply_add fma rm x p c) - (f64_val x * f64_val p + f64_val c)\<bar> \<le> 1 / 2 ^ 51"
      using True er(1) ra_fma(2) [OF P bc er(2)] by (simp add: multiply_add_def)
  next
    case False
    note e1 = f64_mul_error [OF fx fp ra_mul(1) [OF P bc], of rm]
    note e2 = f64_add_error [OF e1(1) fc ra_mul(2) [OF P bc e1(2)], of rm]
    show "f64_finite (multiply_add fma rm x p c) \<and>
        \<bar>f64_val (multiply_add fma rm x p c) - (f64_val x * f64_val p + f64_val c)\<bar> \<le> 1 / 2 ^ 51"
      using False e2(1) ra_mul(3) [OF P bc e1(2) e2(2)] by (simp add: multiply_add_def)
  qed
qed

text \<open>Intervals for the four steps of the polynomial of \<^verbatim>\<open>expf\<close>.\<close>

lemma hb3:
  fixes v c3 c4 p3 :: real
  assumes v: "\<bar>v\<bar> \<le> 1 / 2 ^ 25" and c4: "\<bar>c4\<bar> \<le> 2" and c3: "\<bar>c3\<bar> \<le> 1"
    and e: "\<bar>p3 - (v * c4 + c3)\<bar> \<le> 1 / 2 ^ 51"
  shows "\<bar>p3\<bar> \<le> 2"
proof -
  have "\<bar>v\<bar> * \<bar>c4\<bar> \<le> 1 / 2 ^ 25 * 2" by (rule mult_mono [OF v c4]) simp_all
  then have "\<bar>v * c4\<bar> \<le> 1 / 2 ^ 24" by (simp add: abs_mult)
  then show ?thesis using c3 e unfolding abs_le_iff by simp
qed

lemma hb2:
  fixes v c2 p2 p3 :: real
  assumes v: "\<bar>v\<bar> \<le> 1 / 2 ^ 25" and p3: "\<bar>p3\<bar> \<le> 2"
    and c2: "1 / 2 \<le> c2" "c2 \<le> 1 / 2 + 1 / 2 ^ 42"
    and e: "\<bar>p2 - (v * p3 + c2)\<bar> \<le> 1 / 2 ^ 51"
  shows "0 \<le> p2" and "p2 \<le> 1 / 2 + 1 / 2 ^ 23"
proof -
  have "\<bar>v\<bar> * \<bar>p3\<bar> \<le> 1 / 2 ^ 25 * 2" by (rule mult_mono [OF v p3]) simp_all
  then have a: "\<bar>v * p3\<bar> \<le> 1 / 2 ^ 24" by (simp add: abs_mult)
  show "0 \<le> p2" using a c2 e unfolding abs_le_iff by simp
  show "p2 \<le> 1 / 2 + 1 / 2 ^ 23" using a c2 e unfolding abs_le_iff by simp
qed

lemma hb1:
  fixes v c1 p1 p2 :: real
  assumes v: "\<bar>v\<bar> \<le> 1 / 2 ^ 25" and p2: "0 \<le> p2" "p2 \<le> 1 / 2 + 1 / 2 ^ 23"
    and c1: "1 - 1 / 2 ^ 41 \<le> c1" "c1 \<le> 1 - 1 / 2 ^ 42"
    and e: "\<bar>p1 - (v * p2 + c1)\<bar> \<le> 1 / 2 ^ 51"
  shows "1 / 2 \<le> p1" and "p1 \<le> 1 + 1 / 2 ^ 26"
proof -
  have "\<bar>p2\<bar> \<le> 1 / 2 + 1 / 2 ^ 23" using p2 by simp
  then have "\<bar>v\<bar> * \<bar>p2\<bar> \<le> 1 / 2 ^ 25 * (1 / 2 + 1 / 2 ^ 23)" by (rule mult_mono [OF v]) simp_all
  then have a: "\<bar>v * p2\<bar> \<le> 1 / 2 ^ 26 + 1 / 2 ^ 48" by (simp add: abs_mult)
  show "1 / 2 \<le> p1" using a c1 e unfolding abs_le_iff by simp
  show "p1 \<le> 1 + 1 / 2 ^ 26" using a c1 e unfolding abs_le_iff by simp
qed

lemma hb0:
  fixes v p0 p1 :: real
  assumes v: "1 / 2 ^ 26 \<le> \<bar>v\<bar>" "\<bar>v\<bar> \<le> 1 / 2 ^ 25 - 1 / 2 ^ 49"
    and p1: "1 / 2 \<le> p1" "p1 \<le> 1 + 1 / 2 ^ 26"
    and e: "\<bar>p0 - (v * p1 + 1)\<bar> \<le> 1 / 2 ^ 51"
  shows "0 < v \<Longrightarrow> 1 < p0 \<and> p0 < 1 + 1 / 2 ^ 24"
    and "v < 0 \<Longrightarrow> 1 - 1 / 2 ^ 25 < p0 \<and> p0 < 1"
proof -
  have p1a: "\<bar>p1\<bar> = p1" using p1 by simp
  have "\<bar>v\<bar> * p1 \<le> (1 / 2 ^ 25 - 1 / 2 ^ 49) * (1 + 1 / 2 ^ 26)"
    by (rule mult_mono [OF v(2) p1(2)]) (use p1 in simp_all)
  then have up: "\<bar>v\<bar> * p1 \<le> 1 / 2 ^ 25 - 1 / 2 ^ 49 + 1 / 2 ^ 51" by simp
  have "1 / 2 ^ 26 * (1 / 2) \<le> \<bar>v\<bar> * p1"
    by (rule mult_mono [OF v(1) p1(1)]) simp_all
  then have lo: "1 / 2 ^ 27 \<le> \<bar>v\<bar> * p1" by simp
  define w where "w = \<bar>v\<bar> * p1"
  note up' = up [folded w_def] and lo' = lo [folded w_def]
  show "1 < p0 \<and> p0 < 1 + 1 / 2 ^ 24" if "0 < v"
  proof -
    have "v * p1 = w" using that by (simp add: w_def)
    then have "\<bar>p0 - (w + 1)\<bar> \<le> 1 / 2 ^ 51" using e by (simp only:)
    then show ?thesis using up' lo' unfolding abs_le_iff by simp
  qed
  show "1 - 1 / 2 ^ 25 < p0 \<and> p0 < 1" if "v < 0"
  proof -
    have "v * p1 = - w" using that by (simp add: w_def)
    then have "\<bar>p0 - (- w + 1)\<bar> \<le> 1 / 2 ^ 51" using e by (simp only:)
    then show ?thesis using up' lo' unfolding abs_le_iff by simp
  qed
qed

lemma expf_coefficients:
  "f64_finite 0x3ff0000000000000" "f64_val 0x3ff0000000000000 = 1"
  "f64_finite 0x3feffffffffff777"
  "1 - 1 / 2 ^ 41 \<le> f64_val 0x3feffffffffff777" "f64_val 0x3feffffffffff777 \<le> 1 - 1 / 2 ^ 42"
  "f64_finite 0x3fe000000000071c"
  "1 / 2 \<le> f64_val 0x3fe000000000071c" "f64_val 0x3fe000000000071c \<le> 1 / 2 + 1 / 2 ^ 42"
  "f64_finite 0x3fc555566668e5e7" "\<bar>f64_val 0x3fc555566668e5e7\<bar> \<le> 1"
  "f64_finite 0x3fa55555555ef243" "\<bar>f64_val 0x3fa55555555ef243\<bar> \<le> 2"
  by (simp_all add: pattern_simps)

lemma expf_polyeval_bounds:
  fixes fma :: bool and rm :: rounding and xd :: double
  assumes fx: "f64_finite xd"
    and lo: "1 / 2 ^ 26 \<le> \<bar>f64_val xd\<bar>" and hi: "\<bar>f64_val xd\<bar> \<le> 1 / 2 ^ 25 - 1 / 2 ^ 49"
  defines "p \<equiv> polyeval fma rm xd
                     [0x3ff0000000000000, 0x3feffffffffff777, 0x3fe000000000071c,
                      0x3fc555566668e5e7, 0x3fa55555555ef243]"
  shows "f64_finite p"
    and "0 < f64_val xd \<Longrightarrow> 1 < f64_val p \<and> f64_val p < 1 + 1 / 2 ^ 24"
    and "f64_val xd < 0 \<Longrightarrow> 1 - 1 / 2 ^ 25 < f64_val p \<and> f64_val p < 1"
proof -
  note c = expf_coefficients
  define p3 where "p3 = multiply_add fma rm xd 0x3fa55555555ef243 0x3fc555566668e5e7"
  define p2 where "p2 = multiply_add fma rm xd p3 0x3fe000000000071c"
  define p1 where "p1 = multiply_add fma rm xd p2 0x3feffffffffff777"
  have p: "p = multiply_add fma rm xd p1 0x3ff0000000000000"
    by (simp add: p_def p1_def p2_def p3_def)
  have v: "\<bar>f64_val xd\<bar> \<le> 1 / 2 ^ 25" using hi by simp
  note e3 = multiply_add_error [OF fx c(11) c(9) v c(12) c(10), of fma rm, folded p3_def]
  note b3 = hb3 [OF v c(12) c(10) e3(2)]
  have c2a: "\<bar>f64_val 0x3fe000000000071c\<bar> \<le> 1" using c(7,8) by simp
  note e2 = multiply_add_error [OF fx e3(1) c(6) v b3 c2a, of fma rm, folded p2_def]
  note b2 = hb2 [OF v b3 c(7,8) e2(2)]
  have p2a: "\<bar>f64_val p2\<bar> \<le> 2" using b2 by simp
  have c1a: "\<bar>f64_val 0x3feffffffffff777\<bar> \<le> 1" using c(4,5) by simp
  note e1 = multiply_add_error [OF fx e2(1) c(3) v p2a c1a, of fma rm, folded p1_def]
  note b1 = hb1 [OF v b2 c(4,5) e1(2)]
  have p1a: "\<bar>f64_val p1\<bar> \<le> 2" using b1 by simp
  have c0a: "\<bar>f64_val 0x3ff0000000000000\<bar> \<le> 1" by (simp add: c(2))
  note e0 = multiply_add_error [OF fx e1(1) c(1) v p1a c0a, of fma rm, folded p, unfolded c(2)]
  show "f64_finite p" by (rule e0(1))
  show "0 < f64_val xd \<Longrightarrow> 1 < f64_val p \<and> f64_val p < 1 + 1 / 2 ^ 24"
    by (rule hb0(1) [OF lo hi b1 e0(2)])
  show "f64_val xd < 0 \<Longrightarrow> 1 - 1 / 2 ^ 25 < f64_val p \<and> f64_val p < 1"
    by (rule hb0(2) [OF lo hi b1 e0(2)])
qed

text \<open>Rounding to \<^verbatim>\<open>float\<close> a value next to one.\<close>

lemma bitlen_from_bounds:
  fixes a :: nat and e j :: int
  assumes a: "0 < a"
    and lo: "2 powr of_int (j - 1) \<le> real a * 2 powr of_int e"
    and hi: "real a * 2 powr of_int e < 2 powr of_int j"
  shows "e + bitlen (int a) = j"
proof -
  let ?L = "bitlen (int a)"
  note bl = real_bitlen [OF a]
  have "2 powr of_int (j - 1) \<le> real a * 2 powr of_int e" by (rule lo)
  also have "\<dots> < 2 powr of_int ?L * 2 powr of_int e"
    by (rule mult_strict_right_mono [OF bl(2)]) simp
  also have "\<dots> = 2 powr of_int (?L + e)" by (rule p2_mult) simp
  finally have 1: "j - 1 < ?L + e" by (rule p2_lessD)
  have "(2::real) powr of_int (?L - 1 + e) = 2 powr of_int (?L - 1) * 2 powr of_int e"
    by (rule p2_mult [symmetric]) simp
  also have "\<dots> \<le> real a * 2 powr of_int e"
    by (rule mult_right_mono [OF bl(1)]) simp
  also have "\<dots> < 2 powr of_int j" by (rule hi)
  finally have 2: "?L - 1 + e < j" by (rule p2_lessD)
  from 1 2 show ?thesis by simp
qed

lemma fround_f32_window:
  fixes a t0 :: nat and e q0 :: int
  assumes a: "0 < a"
    and q0: "- 149 \<le> q0" "q0 \<le> - 23"
    and t0: "2 ^ 23 \<le> t0" "t0 < 2 ^ 24"
    and lo: "real t0 * 2 powr of_int q0 < real a * 2 powr of_int e"
    and hi: "real a * 2 powr of_int e < (real t0 + 1) * 2 powr of_int q0"
  defines "q \<equiv> max (emin 8 23) (e + bitlen (int a) - int (23 + 1))"
  defines "t \<equiv> (if q \<le> e then a * 2 ^ nat (e - q) else a div 2 ^ nat (q - e))"
  defines "r \<equiv> (if q \<le> e then 0 else a mod 2 ^ nat (q - e))"
  shows "q = q0" and "t = t0"
    and "real r / 2 ^ nat (q - e) = real a * 2 powr of_int e / 2 powr of_int q0 - real t0"
proof -
  note st = fround_struct [OF a, where ew = 8 and mw = 23 and e = e, folded q_def, folded t_def r_def]
  let ?V = "real a * 2 powr of_int e"
  have "(2::real) powr of_int (q0 + 24 - 1) = 2 powr of_int (int 23) * 2 powr of_int q0"
    by (rule p2_mult [symmetric]) simp
  also have "\<dots> \<le> real t0 * 2 powr of_int q0"
    by (rule mult_right_mono [OF nat_ge_pow2D [OF t0(1)]]) simp
  also have "\<dots> < ?V" by (rule lo)
  finally have l: "2 powr of_int (q0 + 24 - 1) \<le> ?V" by simp
  have "real t0 + 1 \<le> 2 powr of_int (int 24)"
  proof -
    have "t0 + 1 \<le> 2 ^ 24" using t0(2) by simp
    then have "real (t0 + 1) \<le> real ((2::nat) ^ 24)" by (simp only: of_nat_le_iff)
    then show ?thesis by (simp add: powr_realpow)
  qed
  then have "(real t0 + 1) * 2 powr of_int q0 \<le> 2 powr of_int (int 24) * 2 powr of_int q0"
    by (rule mult_right_mono) simp
  also have "\<dots> = 2 powr of_int (q0 + 24)" by (rule p2_mult) simp
  finally have h: "?V < 2 powr of_int (q0 + 24)" using hi by simp
  have L: "e + bitlen (int a) = q0 + 24" by (rule bitlen_from_bounds [OF a l h])
  show q: "q = q0" unfolding q_def L using q0 by (simp add: emin_f32)
  define \<rho> where "\<rho> = real r / 2 ^ nat (q - e)"
  have \<rho>: "0 \<le> \<rho>" "\<rho> < 1"
  proof -
    show "0 \<le> \<rho>" by (simp add: \<rho>_def)
    have "real r < real ((2::nat) ^ nat (q - e))" using st(4) by (simp only: of_nat_less_iff)
    then show "\<rho> < 1" by (simp add: \<rho>_def)
  qed
  have p: "(0::real) < 2 powr of_int q0" by simp
  have V: "?V = (real t + \<rho>) * 2 powr of_int q0"
    using st(3) unfolding q \<rho>_def .
  have "real t0 * 2 powr of_int q0 < (real t + \<rho>) * 2 powr of_int q0" using lo unfolding V .
  then have 1: "real t0 < real t + \<rho>" using p by (simp only: mult_less_cancel_right_pos)
  have "(real t + \<rho>) * 2 powr of_int q0 < (real t0 + 1) * 2 powr of_int q0" using hi unfolding V .
  then have 2: "real t + \<rho> < real t0 + 1" using p by (simp only: mult_less_cancel_right_pos)
  have "real t0 < real (t + 1)" using 1 \<rho> by simp
  then have a1: "t0 < t + 1" by (simp only: of_nat_less_iff)
  have "real t < real (t0 + 1)" using 2 \<rho> by simp
  then have a2: "t < t0 + 1" by (simp only: of_nat_less_iff)
  show t: "t = t0" using a1 a2 by simp
  have "?V / 2 powr of_int q0 = real t + \<rho>" unfolding V by simp
  then show "real r / 2 ^ nat (q - e) = ?V / 2 powr of_int q0 - real t0"
    unfolding t \<rho>_def by simp
qed

lemma ratio_cases:
  fixes r n :: nat and \<rho> :: real
  assumes "real r / 2 ^ n = \<rho>"
  shows "0 < \<rho> \<Longrightarrow> r \<noteq> 0"
    and "\<rho> < 1 / 2 \<Longrightarrow> 2 * r < 2 ^ n"
    and "1 / 2 < \<rho> \<Longrightarrow> 2 ^ n < 2 * r"
proof -
  have r: "real r = \<rho> * 2 ^ n" using assms by (simp add: field_simps)
  show "r \<noteq> 0" if "0 < \<rho>"
  proof
    assume "r = 0"
    then have "\<rho> = 0" using assms by simp
    then show False using that by simp
  qed
  show "2 * r < 2 ^ n" if "\<rho> < 1 / 2"
  proof -
    have "\<rho> * 2 ^ n < 1 / 2 * 2 ^ n" by (rule mult_strict_right_mono [OF that]) simp
    then have "real (2 * r) < real ((2::nat) ^ n)" unfolding r [symmetric] by simp
    then show ?thesis by (simp only: of_nat_less_iff)
  qed
  show "2 ^ n < 2 * r" if "1 / 2 < \<rho>"
  proof -
    have "1 / 2 * 2 ^ n < \<rho> * 2 ^ n" by (rule mult_strict_right_mono [OF that]) simp
    then have "real ((2::nat) ^ n) < real (2 * r)" unfolding r [symmetric] by simp
    then show ?thesis by (simp only: of_nat_less_iff)
  qed
qed

lemma fround_above_one:
  fixes a :: nat and e :: int
  assumes lo: "1 < real a * 2 powr of_int e" and hi: "real a * 2 powr of_int e < 1 + 1 / 2 ^ 24"
  shows "fround 8 23 rm False a e = (if rm = FE_UPWARD then 0x3f800001 else 0x3f800000)"
proof -
  have a: "0 < a" using lo by (cases a) simp_all
  define q where "q = max (emin 8 23) (e + bitlen (int a) - int (23 + 1))"
  define t where "t = (if q \<le> e then a * 2 ^ nat (e - q) else a div 2 ^ nat (q - e))"
  define r where "r = (if q \<le> e then 0 else a mod 2 ^ nat (q - e))"
  define t' where "t' = (if round_away rm False t r (2 ^ nat (q - e)) then t + 1 else t)"
  define k where "k = nat (q - emin 8 23)"
  have p: "(2::real) powr of_int (- 23) = 1 / 2 ^ 23" by (simp add: p2_neg_numeral)
  have q0: "- 149 \<le> (- 23::int)" "(- 23::int) \<le> - 23" by simp_all
  have t0: "2 ^ 23 \<le> (8388608::nat)" "(8388608::nat) < 2 ^ 24" by simp_all
  have l: "real 8388608 * 2 powr of_int (- 23) < real a * 2 powr of_int e"
    using lo unfolding p by simp
  have h: "real a * 2 powr of_int e < (real 8388608 + 1) * 2 powr of_int (- 23)"
    using hi unfolding p by simp
  note w = fround_f32_window [OF a q0 t0 l h, folded q_def, folded t_def r_def]
  have \<rho>: "real r / 2 ^ nat (q - e) = real a * 2 powr of_int e * 2 ^ 23 - 8388608"
    unfolding w(3) p by simp
  have "0 < real a * 2 powr of_int e * 2 ^ 23 - 8388608" using lo by simp
  then have r0: "r \<noteq> 0" by (rule ratio_cases(1) [OF \<rho>])
  have "real a * 2 powr of_int e * 2 ^ 23 - 8388608 < 1 / 2" using hi by simp
  then have r1: "2 * r < 2 ^ nat (q - e)" by (rule ratio_cases(2) [OF \<rho>])
  have ra: "round_away rm False t r (2 ^ nat (q - e)) \<longleftrightarrow> rm = FE_UPWARD"
    using r0 r1 by (cases rm) (simp_all add: round_away_def)
  have t': "t' = (if rm = FE_UPWARD then 8388609 else 8388608)"
    using ra w(2) by (simp add: t'_def)
  have k: "k = 126" unfolding k_def w(1) by (simp add: emin_f32)
  show ?thesis
    unfolding fround_unfold [OF a q_def t_def r_def t'_def k_def] t' k
    by (simp add: sign_bit_def inf_pat_def)
qed

lemma fround_below_one:
  fixes a :: nat and e :: int
  assumes lo: "1 - 1 / 2 ^ 25 < real a * 2 powr of_int e" and hi: "real a * 2 powr of_int e < 1"
  shows "fround 8 23 rm False a e =
           (if rm = FE_DOWNWARD \<or> rm = FE_TOWARDZERO then 0x3f7fffff else 0x3f800000)"
proof -
  have a: "0 < a" using lo by (cases a) simp_all
  define q where "q = max (emin 8 23) (e + bitlen (int a) - int (23 + 1))"
  define t where "t = (if q \<le> e then a * 2 ^ nat (e - q) else a div 2 ^ nat (q - e))"
  define r where "r = (if q \<le> e then 0 else a mod 2 ^ nat (q - e))"
  define t' where "t' = (if round_away rm False t r (2 ^ nat (q - e)) then t + 1 else t)"
  define k where "k = nat (q - emin 8 23)"
  have p: "(2::real) powr of_int (- 24) = 1 / 2 ^ 24" by (simp add: p2_neg_numeral)
  have q0: "- 149 \<le> (- 24::int)" "(- 24::int) \<le> - 23" by simp_all
  have t0: "2 ^ 23 \<le> (16777215::nat)" "(16777215::nat) < 2 ^ 24" by simp_all
  have l: "real 16777215 * 2 powr of_int (- 24) < real a * 2 powr of_int e"
    using lo unfolding p by simp
  have h: "real a * 2 powr of_int e < (real 16777215 + 1) * 2 powr of_int (- 24)"
    using hi unfolding p by simp
  note w = fround_f32_window [OF a q0 t0 l h, folded q_def, folded t_def r_def]
  have \<rho>: "real r / 2 ^ nat (q - e) = real a * 2 powr of_int e * 2 ^ 24 - 16777215"
    unfolding w(3) p by simp
  have "1 / 2 < real a * 2 powr of_int e * 2 ^ 24 - 16777215" using lo by simp
  then have r1: "2 ^ nat (q - e) < 2 * r" by (rule ratio_cases(3) [OF \<rho>])
  then have r0: "r \<noteq> 0" by (cases r) simp_all
  have ra: "round_away rm False t r (2 ^ nat (q - e)) \<longleftrightarrow> rm = FE_TONEAREST \<or> rm = FE_UPWARD"
    using r0 r1 by (cases rm) (simp_all add: round_away_def)
  have t': "t' = (if rm = FE_TONEAREST \<or> rm = FE_UPWARD then 16777216 else 16777215)"
    using ra w(2) by (simp add: t'_def)
  have k: "k = 125" unfolding k_def w(1) by (simp add: emin_f32)
  show ?thesis
    unfolding fround_unfold [OF a q_def t_def r_def t'_def k_def] t' k
    by (cases rm) (simp_all add: sign_bit_def inf_pat_def)
qed

lemma dy_pos:
  assumes "0 < dy_val v"
  shows "0 < fst v" and "real (nat \<bar>fst v\<bar>) * 2 powr of_int (snd v) = dy_val v"
proof -
  show "0 < fst v" using assms by (simp add: dy_val_def zero_less_mult_iff)
  then show "real (nat \<bar>fst v\<bar>) * 2 powr of_int (snd v) = dy_val v"
    by (simp add: dy_val_def)
qed

lemma c_one: "f32_finite 0x3f800000" "f32_val 0x3f800000 = 1"
  by (simp_all add: pattern_simps)

lemma f64_to_f32_near_one:
  assumes fp: "f64_finite p"
  shows "1 < f64_val p \<Longrightarrow> f64_val p < 1 + 1 / 2 ^ 24 \<Longrightarrow>
           f64_to_f32 rm p = (if rm = FE_UPWARD then 0x3f800001 else 0x3f800000)"
    and "1 - 1 / 2 ^ 25 < f64_val p \<Longrightarrow> f64_val p < 1 \<Longrightarrow>
           f64_to_f32 rm p =
             (if rm = FE_DOWNWARD \<or> rm = FE_TOWARDZERO then 0x3f7fffff else 0x3f800000)"
proof -
  note fin = fp [unfolded f64_finite_def]
  let ?v = "dy_of 11 52 (unat p)"
  let ?a = "nat \<bar>fst ?v\<bar>"
  have f: "fconv 11 52 8 23 rm (unat p) = fround 8 23 rm (sign_of 11 52 (unat p)) ?a (snd ?v)"
    using finite_dy(3,4) [OF fin] by (simp add: fconv_def)
  have pos: "\<not> sign_of 11 52 (unat p) \<and> real ?a * 2 powr of_int (snd ?v) = f64_val p"
    if "0 < f64_val p"
  proof -
    have d: "0 < dy_val ?v" using that by (simp add: f64_val_def valof_def)
    note dp = dy_pos [OF d]
    have "\<not> sign_of 11 52 (unat p)" using finite_dy(5) [OF fin] dp(1) by auto
    then show ?thesis using dp(2) by (simp add: f64_val_def valof_def)
  qed
  show "f64_to_f32 rm p = (if rm = FE_UPWARD then 0x3f800001 else 0x3f800000)"
    if lo: "1 < f64_val p" and hi: "f64_val p < 1 + 1 / 2 ^ 24"
  proof -
    have "0 < f64_val p" using lo by simp
    note ps = pos [OF this]
    have "fround 8 23 rm False ?a (snd ?v) = (if rm = FE_UPWARD then 0x3f800001 else 0x3f800000)"
      by (rule fround_above_one) (use ps lo hi in simp_all)
    then show ?thesis using ps by (simp add: f64_to_f32_def f)
  qed
  show "f64_to_f32 rm p =
             (if rm = FE_DOWNWARD \<or> rm = FE_TOWARDZERO then 0x3f7fffff else 0x3f800000)"
    if lo: "1 - 1 / 2 ^ 25 < f64_val p" and hi: "f64_val p < 1"
  proof -
    have "0 < f64_val p" using lo by simp
    note ps = pos [OF this]
    have "fround 8 23 rm False ?a (snd ?v) =
        (if rm = FE_DOWNWARD \<or> rm = FE_TOWARDZERO then 0x3f7fffff else 0x3f800000)"
      by (rule fround_below_one) (use ps lo hi in simp_all)
    then show ?thesis using ps by (simp add: f64_to_f32_def f)
  qed
qed

lemma f32_add_one:
  assumes fx: "f32_finite x"
  shows "0 < f32_val x \<Longrightarrow> f32_val x < 1 / 2 ^ 24 \<Longrightarrow>
           f32_add rm 0x3f800000 x = (if rm = FE_UPWARD then 0x3f800001 else 0x3f800000)"
    and "- (1 / 2 ^ 25) < f32_val x \<Longrightarrow> f32_val x < 0 \<Longrightarrow>
           f32_add rm 0x3f800000 x =
             (if rm = FE_DOWNWARD \<or> rm = FE_TOWARDZERO then 0x3f7fffff else 0x3f800000)"
proof -
  note fin = fx [unfolded f32_finite_def]
  note one = c_one [unfolded f32_finite_def f32_val_def]
  let ?v = "dy_add (dy_of 8 23 (unat (0x3f800000 :: 32 word))) (dy_of 8 23 (unat x))"
  let ?a = "nat \<bar>fst ?v\<bar>"
  have v: "dy_val ?v = 1 + f32_val x"
    using one(2) by (simp add: dy_val_add valof_def f32_val_def)
  have f: "fadd 8 23 rm (unat (0x3f800000 :: 32 word)) (unat x) =
    (if fst ?v = 0 then zero_sum 8 23 rm (sign_of 8 23 (unat (0x3f800000 :: 32 word))) (sign_of 8 23 (unat x))
     else fround_dy 8 23 rm ?v)"
    using finite_dy(3,4) [OF fin] finite_dy(3,4) [OF one(1)] by (simp only: fadd_def Let_def if_False)
  have pos: "fadd 8 23 rm (unat (0x3f800000 :: 32 word)) (unat x) = fround 8 23 rm False ?a (snd ?v) \<and>
      real ?a * 2 powr of_int (snd ?v) = 1 + f32_val x"
    if "0 < 1 + f32_val x"
  proof -
    have d: "0 < dy_val ?v" using that unfolding v .
    note dp = dy_pos [OF d]
    have "\<not> fst ?v < 0" "fst ?v \<noteq> 0" using dp(1) by simp_all
    then show ?thesis unfolding f fround_dy_def using dp(2) v by (simp only: if_False)
  qed
  show "f32_add rm 0x3f800000 x = (if rm = FE_UPWARD then 0x3f800001 else 0x3f800000)"
    if lo: "0 < f32_val x" and hi: "f32_val x < 1 / 2 ^ 24"
  proof -
    have "0 < 1 + f32_val x" using lo by simp
    note ps = pos [OF this]
    have V: "real ?a * 2 powr of_int (snd ?v) = 1 + f32_val x" by (rule conjunct2 [OF ps])
    have l: "1 < real ?a * 2 powr of_int (snd ?v)" unfolding V using lo by simp
    have h: "real ?a * 2 powr of_int (snd ?v) < 1 + 1 / 2 ^ 24" unfolding V using hi by simp
    have "fround 8 23 rm False ?a (snd ?v) = (if rm = FE_UPWARD then 0x3f800001 else 0x3f800000)"
      by (rule fround_above_one [OF l h])
    then show ?thesis unfolding f32_add_def conjunct1 [OF ps] by simp
  qed
  show "f32_add rm 0x3f800000 x =
             (if rm = FE_DOWNWARD \<or> rm = FE_TOWARDZERO then 0x3f7fffff else 0x3f800000)"
    if lo: "- (1 / 2 ^ 25) < f32_val x" and hi: "f32_val x < 0"
  proof -
    have "0 < 1 + f32_val x" using lo by simp
    note ps = pos [OF this]
    have V: "real ?a * 2 powr of_int (snd ?v) = 1 + f32_val x" by (rule conjunct2 [OF ps])
    have l: "1 - 1 / 2 ^ 25 < real ?a * 2 powr of_int (snd ?v)" unfolding V using lo by simp
    have h: "real ?a * 2 powr of_int (snd ?v) < 1" unfolding V using hi by simp
    have "fround 8 23 rm False ?a (snd ?v) =
        (if rm = FE_DOWNWARD \<or> rm = FE_TOWARDZERO then 0x3f7fffff else 0x3f800000)"
      by (rule fround_below_one [OF l h])
    then show ?thesis unfolding f32_add_def conjunct1 [OF ps] by simp
  qed
qed

text \<open>Further operations on floats and doubles.\<close>

lemma f32_add_error:
  assumes "f32_finite x" "f32_finite y" "\<bar>f32_val x + f32_val y\<bar> \<le> 4"
  shows "f32_finite (f32_add rm x y)"
    and "\<bar>f32_val (f32_add rm x y) - (f32_val x + f32_val y)\<bar>
           \<le> \<bar>f32_val x + f32_val y\<bar> / 2 ^ 23 + 1 / 2 ^ 80"
proof -
  have ew: "(2::nat) \<le> 8" by simp
  have "\<bar>f32_val x + f32_val y\<bar> < 2 powr of_int 3" using assms(3) by simp
  also have "\<dots> \<le> 2 powr of_int (emin 8 23 + int 23 + 2 ^ 8 - 3)"
    by (rule p2_le) (simp add: emin_f32)
  finally have no: "\<bar>valof 8 23 (unat x) + valof 8 23 (unat y)\<bar>
      < 2 powr of_int (emin 8 23 + int 23 + 2 ^ 8 - 3)"
    unfolding f32_val_def .
  note er = fadd_error [OF ew assms(1,2) [unfolded f32_finite_def] no, of rm]
  show "f32_finite (f32_add rm x y)"
    using er(2) by (simp add: f32_finite_def f32_add_def f32_wrap)
  have eta: "(2::real) powr of_int (emin 8 23) \<le> 1 / 2 ^ 80"
  proof -
    have "(2::real) powr of_int (emin 8 23) \<le> 2 powr of_int (- 80)"
      by (rule p2_le) (simp add: emin_f32)
    then show ?thesis by (simp add: p2_neg_numeral)
  qed
  have "\<bar>f32_val (f32_add rm x y) - (f32_val x + f32_val y)\<bar>
      \<le> \<bar>f32_val x + f32_val y\<bar> * 2 powr of_int (- int 23) + 2 powr of_int (emin 8 23)"
    using er by (simp add: f32_val_def f32_add_def f32_wrap)
  also have "\<bar>f32_val x + f32_val y\<bar> * 2 powr of_int (- int 23) = \<bar>f32_val x + f32_val y\<bar> / 2 ^ 23"
    by (simp add: p2_neg_numeral)
  finally show "\<bar>f32_val (f32_add rm x y) - (f32_val x + f32_val y)\<bar>
           \<le> \<bar>f32_val x + f32_val y\<bar> / 2 ^ 23 + 1 / 2 ^ 80"
    using eta by linarith
qed

lemma f32_sub_exact:
  fixes T :: nat and Q :: int
  assumes "f32_finite x" "f32_finite y"
    and "\<bar>f32_val x - f32_val y\<bar> = real T * 2 powr of_int Q"
    and "T < 2 ^ 24" "- 149 \<le> Q" "\<bar>f32_val x - f32_val y\<bar> < 2 powr 127"
  shows "f32_val (f32_sub rm x y) = f32_val x - f32_val y" and "f32_finite (f32_sub rm x y)"
proof -
  have ew: "(2::nat) \<le> 8" by simp
  note fy = assms(2) [unfolded f32_finite_def]
  note ng = negate_val [OF fy]
  have s: "fsub 8 23 rm (unat x) (unat y) = fadd 8 23 rm (unat x) (negate_of 8 23 (unat y))"
    by (rule fsub_unfold [OF assms(1) [unfolded f32_finite_def] fy])
  have T: "T < 2 ^ (23 + 1)" using assms(4) by simp
  have Q: "emin 8 23 \<le> Q" using assms(5) by (simp add: emin_f32)
  have rep: "\<bar>valof 8 23 (unat x) + valof 8 23 (negate_of 8 23 (unat y))\<bar> = real T * 2 powr of_int Q"
    using assms(3) by (simp add: ng(1) f32_val_def)
  have no: "\<bar>valof 8 23 (unat x) + valof 8 23 (negate_of 8 23 (unat y))\<bar>
      < 2 powr of_int (emin 8 23 + int 23 + 2 ^ 8 - 3)"
    using assms(6) by (simp add: ng(1) f32_val_def emin_f32)
  note ex = fadd_exact [OF ew assms(1) [unfolded f32_finite_def] ng(2) rep T Q no, of rm]
  show "f32_val (f32_sub rm x y) = f32_val x - f32_val y"
    using ex by (simp add: f32_val_def f32_sub_def s f32_wrap ng(1))
  show "f32_finite (f32_sub rm x y)"
    using ex by (simp add: f32_finite_def f32_sub_def s f32_wrap)
qed

lemma f64_mul_exact:
  fixes T :: nat and Q :: int
  assumes "f64_finite x" "f64_finite y"
    and "\<bar>f64_val x * f64_val y\<bar> = real T * 2 powr of_int Q"
    and "T < 2 ^ 53" "- 1074 \<le> Q" "\<bar>f64_val x * f64_val y\<bar> \<le> 4"
  shows "f64_val (f64_mul rm x y) = f64_val x * f64_val y" and "f64_finite (f64_mul rm x y)"
proof -
  have ew: "(2::nat) \<le> 11" by simp
  have T: "T < 2 ^ (52 + 1)" using assms(4) by simp
  have Q: "emin 11 52 \<le> Q" using assms(5) by (simp add: emin_f64)
  note no = big_f64 [OF assms(6), unfolded f64_val_def]
  note ex = fmul_exact [OF ew assms(1,2) [unfolded f64_finite_def] assms(3) [unfolded f64_val_def] T Q no, of rm]
  show "f64_val (f64_mul rm x y) = f64_val x * f64_val y"
    using ex by (simp add: f64_val_def f64_mul_def f64_wrap)
  show "f64_finite (f64_mul rm x y)"
    using ex by (simp add: f64_finite_def f64_mul_def f64_wrap)
qed

lemma f64_mul_one:
  assumes "f64_finite y" "\<bar>f64_val y\<bar> \<le> 4"
  shows "f64_val (f64_mul rm (f64_mul rm 0x3ff0000000000000 0x3ff0000000000000) y) = f64_val y"
    and "f64_finite (f64_mul rm (f64_mul rm 0x3ff0000000000000 0x3ff0000000000000) y)"
proof -
  note c = expf_coefficients(1,2)
  have r1: "\<bar>f64_val 0x3ff0000000000000 * f64_val 0x3ff0000000000000\<bar> = real 1 * 2 powr of_int 0"
    by (simp add: c)
  have b1: "\<bar>f64_val 0x3ff0000000000000 * f64_val 0x3ff0000000000000\<bar> \<le> 4" by (simp add: c)
  note m1 = f64_mul_exact [OF c(1) c(1) r1 _ _ b1, of rm, simplified, unfolded c(2), simplified]
  let ?v = "dy_of 11 52 (unat y)"
  note fy = assms(1) [unfolded f64_finite_def]
  have r2: "\<bar>f64_val (f64_mul rm 0x3ff0000000000000 0x3ff0000000000000) * f64_val y\<bar> =
      real (nat \<bar>fst ?v\<bar>) * 2 powr of_int (snd ?v)"
    unfolding m1(1) by (simp add: f64_val_def valof_def abs_dy_val)
  have T: "nat \<bar>fst ?v\<bar> < 2 ^ 53" using finite_dy(1) [OF fy] by (simp add: nat_less_iff)
  have Q: "- 1074 \<le> snd ?v" using finite_dy(2) [OF fy] by (simp add: emin_f64)
  have b2: "\<bar>f64_val (f64_mul rm 0x3ff0000000000000 0x3ff0000000000000) * f64_val y\<bar> \<le> 4"
    unfolding m1(1) using assms(2) by simp
  note m2 = f64_mul_exact [OF m1(2) assms(1) r2 T Q b2, of rm]
  show "f64_val (f64_mul rm (f64_mul rm 0x3ff0000000000000 0x3ff0000000000000) y) = f64_val y"
    using m2(1) unfolding m1(1) by simp
  show "f64_finite (f64_mul rm (f64_mul rm 0x3ff0000000000000 0x3ff0000000000000) y)"
    by (rule m2(2))
qed

text \<open>The order of the patterns of one sign is the order of their values.\<close>

lemma valof_fields:
  assumes n: "n < 2 ^ (ew + mw)"
  defines "ex \<equiv> n div 2 ^ mw" and "F \<equiv> n mod 2 ^ mw"
  shows "valof ew mw n = real (if ex = 0 then F else 2 ^ mw + F) *
           2 powr of_int (if ex = 0 then emin ew mw else emin ew mw + int ex - 1)"
proof -
  have s: "\<not> sign_of ew mw n" using n by (simp add: sign_of_def)
  have "n < 2 ^ ew * 2 ^ mw" using n by (simp add: power_add)
  then have "n div 2 ^ mw < 2 ^ ew" by (simp add: less_mult_imp_div_less)
  then have e: "expo_of ew mw n = ex" by (simp add: expo_of_def ex_def)
  show ?thesis
    unfolding valof_def dy_val_def dy_of_def Let_def e
    using s by (simp add: frac_of_def F_def)
qed

lemma valof_bounds:
  assumes n: "n < 2 ^ (ew + mw)"
  shows "valof ew mw n < 2 powr of_int (int mw + emin ew mw + int (n div 2 ^ mw))"
    and "0 < n div 2 ^ mw \<Longrightarrow>
           2 powr of_int (int mw + emin ew mw + int (n div 2 ^ mw) - 1) \<le> valof ew mw n"
proof -
  define ex where "ex = n div 2 ^ mw"
  define F where "F = n mod 2 ^ mw"
  note v = valof_fields [OF n, folded ex_def F_def]
  have F: "F < 2 ^ mw" by (simp add: F_def)
  show "valof ew mw n < 2 powr of_int (int mw + emin ew mw + int (n div 2 ^ mw))"
  proof (cases "ex = 0")
    case True
    have "real F * 2 powr of_int (emin ew mw) < 2 powr of_int (int mw) * 2 powr of_int (emin ew mw)"
      by (rule mult_strict_right_mono [OF nat_less_pow2D [OF F]]) simp
    also have "\<dots> = 2 powr of_int (int mw + emin ew mw)" by (rule p2_mult) simp
    finally show ?thesis using True v by (simp add: ex_def [symmetric])
  next
    case False
    have "2 ^ mw + F < 2 ^ (mw + 1)" using F by simp
    then have "real (2 ^ mw + F) * 2 powr of_int (emin ew mw + int ex - 1)
        < 2 powr of_int (int (mw + 1)) * 2 powr of_int (emin ew mw + int ex - 1)"
      by (intro mult_strict_right_mono nat_less_pow2D) simp_all
    also have "\<dots> = 2 powr of_int (int mw + emin ew mw + int ex)" by (rule p2_mult) simp
    finally show ?thesis using False v by (simp add: ex_def [symmetric])
  qed
  show "2 powr of_int (int mw + emin ew mw + int (n div 2 ^ mw) - 1) \<le> valof ew mw n"
    if "0 < n div 2 ^ mw"
  proof -
    have nz: "ex \<noteq> 0" using that by (simp add: ex_def)
    have "(2::real) powr of_int (int mw + emin ew mw + int ex - 1) =
        2 powr of_int (int mw) * 2 powr of_int (emin ew mw + int ex - 1)"
      by (rule p2_mult [symmetric]) simp
    also have "\<dots> \<le> real (2 ^ mw + F) * 2 powr of_int (emin ew mw + int ex - 1)"
      by (intro mult_right_mono nat_ge_pow2D) simp_all
    finally show ?thesis using nz v by (simp add: ex_def [symmetric])
  qed
qed

lemma valof_strict_mono:
  assumes lt: "k < k'" and k': "k' < 2 ^ (ew + mw)"
  shows "valof ew mw k < valof ew mw k'"
proof -
  have k: "k < 2 ^ (ew + mw)" using lt k' by simp
  define ex where "ex = k div 2 ^ mw"
  define F where "F = k mod 2 ^ mw"
  define ex' where "ex' = k' div 2 ^ mw"
  define F' where "F' = k' mod 2 ^ mw"
  note v = valof_fields [OF k, folded ex_def F_def]
  note v' = valof_fields [OF k', folded ex'_def F'_def]
  have le: "ex \<le> ex'" unfolding ex_def ex'_def using lt by (intro div_le_mono) simp
  show ?thesis
  proof (cases "ex = ex'")
    case True
    have a: "k = ex * 2 ^ mw + F"
      unfolding ex_def F_def by (rule div_mult_mod_eq [symmetric])
    have b: "k' = ex' * 2 ^ mw + F'"
      unfolding ex'_def F'_def by (rule div_mult_mod_eq [symmetric])
    have "ex * 2 ^ mw + F < ex' * 2 ^ mw + F'" using lt a b by (simp only:)
    then have "F < F'" unfolding True by simp
    then have "real (if ex = 0 then F else 2 ^ mw + F) < real (if ex = 0 then F' else 2 ^ mw + F')"
      by simp
    then have "real (if ex = 0 then F else 2 ^ mw + F) *
          2 powr of_int (if ex = 0 then emin ew mw else emin ew mw + int ex - 1)
        < real (if ex = 0 then F' else 2 ^ mw + F') *
          2 powr of_int (if ex = 0 then emin ew mw else emin ew mw + int ex - 1)"
      by (rule mult_strict_right_mono) simp
    then show ?thesis unfolding v v' True [symmetric] .
  next
    case False
    then have l: "ex < ex'" using le by simp
    then have p: "0 < k' div 2 ^ mw" by (simp add: ex'_def)
    have "valof ew mw k < 2 powr of_int (int mw + emin ew mw + int ex)"
      using valof_bounds(1) [OF k] by (simp add: ex_def)
    also have "\<dots> \<le> 2 powr of_int (int mw + emin ew mw + int ex' - 1)"
      by (rule p2_le) (use l in simp)
    also have "\<dots> \<le> valof ew mw k'"
      using valof_bounds(2) [OF k' p] by (simp add: ex'_def)
    finally show ?thesis .
  qed
qed

lemma valof_mono:
  assumes "k \<le> k'" "k' < 2 ^ (ew + mw)"
  shows "valof ew mw k \<le> valof ew mw k'"
proof (cases "k = k'")
  case False
  then have "k < k'" using assms(1) by simp
  from valof_strict_mono [OF this assms(2)] show ?thesis by simp
qed simp

lemma valof_abs:
  assumes "n < 2 ^ (1 + ew + mw)"
  shows "\<bar>valof ew mw n\<bar> = valof ew mw (n mod 2 ^ (ew + mw))"
    and "expo_of ew mw (n mod 2 ^ (ew + mw)) = expo_of ew mw n"
    and "sign_of ew mw n \<Longrightarrow> valof ew mw n \<le> 0"
    and "\<not> sign_of ew mw n \<Longrightarrow> 0 \<le> valof ew mw n"
proof -
  let ?p = "n mod 2 ^ (ew + mw)"
  have p: "?p < 2 ^ (ew + mw)" by simp
  have "n div 2 ^ (ew + mw) < 2" using assms by (simp add: less_mult_imp_div_less)
  then have d: "n div 2 ^ (ew + mw) = (if sign_of ew mw n then 1 else 0)"
    by (cases "n div 2 ^ (ew + mw)") (auto simp add: sign_of_def)
  have dm: "n = n div 2 ^ (ew + mw) * 2 ^ (ew + mw) + ?p"
    by (rule div_mult_mod_eq [symmetric])
  have n: "n = sign_bit ew mw (sign_of ew mw n) + ?p"
  proof (cases "sign_of ew mw n")
    case True
    then have "n div 2 ^ (ew + mw) = 1" using d by simp
    then have "n = 1 * 2 ^ (ew + mw) + ?p" using dm by (simp only:)
    then show ?thesis unfolding sign_bit_def if_P [OF True] by simp
  next
    case False
    then have "n div 2 ^ (ew + mw) = 0" using d by simp
    then have "n = 0 * 2 ^ (ew + mw) + ?p" using dm by (simp only:)
    then show ?thesis unfolding sign_bit_def if_not_P [OF False] by simp
  qed
  note ds = dy_of_sign_bit [OF p, of "sign_of ew mw n", folded n]
  have nn: "0 \<le> fst (dy_of ew mw ?p)"
    by (simp add: dy_of_def Let_def sign_of_def)
  have vp: "0 \<le> valof ew mw ?p" using nn by (simp add: valof_def dy_val_def)
  have vn: "valof ew mw n = (if sign_of ew mw n then - 1 else 1) * valof ew mw ?p"
    unfolding valof_def ds by (simp add: dy_val_def)
  show "\<bar>valof ew mw n\<bar> = valof ew mw ?p" unfolding vn using vp by simp
  show "sign_of ew mw n \<Longrightarrow> valof ew mw n \<le> 0" unfolding vn using vp by simp
  show "\<not> sign_of ew mw n \<Longrightarrow> 0 \<le> valof ew mw n" unfolding vn using vp by simp
  show "expo_of ew mw ?p = expo_of ew mw n"
  proof (cases "sign_of ew mw n")
    case True
    have "expo_of ew mw (sign_bit ew mw (sign_of ew mw n) + ?p) = expo_of ew mw ?p"
      unfolding sign_bit_def if_P [OF True] by (rule fields_sign_bit(1) [OF p])
    then show ?thesis unfolding n [symmetric] by simp
  next
    case False
    have "expo_of ew mw (sign_bit ew mw (sign_of ew mw n) + ?p) = expo_of ew mw ?p"
      unfolding sign_bit_def if_not_P [OF False] by simp
    then show ?thesis unfolding n [symmetric] by simp
  qed
qed

lemma f32_abs_val: "\<bar>f32_val x\<bar> = valof 8 23 (unat (x AND 0x7fffffff))"
proof -
  have "unat x < 2 ^ (1 + 8 + 23)" using unat_lt32 [of x] by simp
  from valof_abs(1) [OF this] show ?thesis by (simp add: f32_val_def unat_abs)
qed

lemma f32_sign_val:
  shows "get_sign x \<Longrightarrow> f32_val x \<le> 0" and "\<not> get_sign x \<Longrightarrow> 0 \<le> f32_val x"
proof -
  have n: "unat x < 2 ^ (1 + 8 + 23)" using unat_lt32 [of x] by simp
  show "get_sign x \<Longrightarrow> f32_val x \<le> 0"
    using valof_abs(3) [OF n] by (simp add: f32_val_def get_sign_def)
  show "\<not> get_sign x \<Longrightarrow> 0 \<le> f32_val x"
    using valof_abs(4) [OF n] by (simp add: f32_val_def get_sign_def)
qed

lemma f32_finite_abs: "f32_finite x \<longleftrightarrow> x AND 0x7fffffff < 0x7f800000"
proof -
  have lt: "unat x mod 2147483648 < 2147483648" by simp
  have "expo_of 8 23 (unat x) = (unat x mod 2147483648) div 8388608"
    using expo_of_mod [of "unat x"] expo_of_small [OF lt] by simp
  moreover have "(unat x mod 2147483648) div 8388608 < 255 \<longleftrightarrow> unat x mod 2147483648 < 2139095040"
    by (simp add: div_less_iff_less_mult)
  ultimately show ?thesis
    using unat_lt32 [of x] by (simp add: f32_finite_def finite_of_def word_less_nat_alt unat_abs)
qed

lemma f32_abs_compare:
  fixes x c :: "32 word"
  assumes c: "c < 0x80000000"
  shows "x AND 0x7fffffff \<le> c \<longleftrightarrow> \<bar>f32_val x\<bar> \<le> f32_val c"
    and "x AND 0x7fffffff < c \<longleftrightarrow> \<bar>f32_val x\<bar> < f32_val c"
proof -
  let ?a = "unat (x AND 0x7fffffff)"
  have cb: "unat c < 2 ^ (8 + 23)" using c by (simp add: word_less_nat_alt)
  have ab: "?a < 2 ^ (8 + 23)" by (simp add: unat_abs)
  have 1: "?a \<le> unat c \<Longrightarrow> valof 8 23 ?a \<le> valof 8 23 (unat c)"
    by (rule valof_mono [OF _ cb])
  have 2: "unat c < ?a \<Longrightarrow> valof 8 23 (unat c) < valof 8 23 ?a"
    by (rule valof_strict_mono [OF _ ab])
  have 3: "?a < unat c \<Longrightarrow> valof 8 23 ?a < valof 8 23 (unat c)"
    by (rule valof_strict_mono [OF _ cb])
  have 4: "unat c \<le> ?a \<Longrightarrow> valof 8 23 (unat c) \<le> valof 8 23 ?a"
    by (rule valof_mono [OF _ ab])
  show "x AND 0x7fffffff \<le> c \<longleftrightarrow> \<bar>f32_val x\<bar> \<le> f32_val c"
    unfolding f32_abs_val unfolding word_le_nat_alt f32_val_def
    using 1 2 by (cases "?a \<le> unat c") auto
  show "x AND 0x7fffffff < c \<longleftrightarrow> \<bar>f32_val x\<bar> < f32_val c"
    unfolding f32_abs_val unfolding word_less_nat_alt f32_val_def
    using 3 4 by (cases "?a < unat c") auto
qed

lemma f32_thresholds:
  "f32_val 0x32800000 = 1 / 2 ^ 26" "f32_val 0x33000000 = 1 / 2 ^ 25"
  "f32_val 0x32ffffff = 1 / 2 ^ 25 - 1 / 2 ^ 49"
  by (simp_all add: pattern_simps)

lemma f32_tiny_bits:
  shows "\<bar>f32_val x\<bar> \<le> 1 / 2 ^ 26 \<longleftrightarrow> x AND 0x7fffffff \<le> 0x32800000"
    and "\<bar>f32_val x\<bar> < 1 / 2 ^ 25 \<longleftrightarrow> x AND 0x7fffffff < 0x33000000"
    and "\<bar>f32_val x\<bar> < 1 / 2 ^ 25 \<Longrightarrow> \<bar>f32_val x\<bar> \<le> 1 / 2 ^ 25 - 1 / 2 ^ 49"
    and "\<bar>f32_val x\<bar> < 1 / 2 ^ 25 \<Longrightarrow> f32_finite x"
proof -
  show 1: "\<bar>f32_val x\<bar> \<le> 1 / 2 ^ 26 \<longleftrightarrow> x AND 0x7fffffff \<le> 0x32800000"
    using f32_abs_compare(1) [where c = "0x32800000" and x = x] by (simp add: f32_thresholds)
  show 2: "\<bar>f32_val x\<bar> < 1 / 2 ^ 25 \<longleftrightarrow> x AND 0x7fffffff < 0x33000000"
    using f32_abs_compare(2) [where c = "0x33000000" and x = x] by (simp add: f32_thresholds)
  show "\<bar>f32_val x\<bar> \<le> 1 / 2 ^ 25 - 1 / 2 ^ 49" if "\<bar>f32_val x\<bar> < 1 / 2 ^ 25"
  proof -
    have "x AND 0x7fffffff < 0x33000000" using that 2 by simp
    then have "x AND 0x7fffffff \<le> 0x32ffffff" by (simp add: word_less_nat_alt word_le_nat_alt)
    then show ?thesis
      using f32_abs_compare(1) [where c = "0x32ffffff" and x = x] by (simp add: f32_thresholds)
  qed
  show "f32_finite x" if "\<bar>f32_val x\<bar> < 1 / 2 ^ 25"
  proof -
    have "x AND 0x7fffffff < 0x33000000" using that 2 by simp
    then show ?thesis unfolding f32_finite_abs by (simp add: word_less_nat_alt)
  qed
qed

text \<open>The general path of \<^verbatim>\<open>expf\<close> for \<open>2^-26 \<le> |x| < 2^-25\<close>.\<close>

lemma c_half: "f32_finite 0x3f000000" "f32_val 0x3f000000 = 1 / 2"
  "f32_finite 0xbf000000" "f32_val 0xbf000000 = - (1 / 2)"
  by (simp_all add: pattern_simps)

lemma ra_half:
  fixes u h w :: real
  assumes u: "\<bar>u\<bar> \<le> 1 / 2 ^ 18" and h: "\<bar>h\<bar> = 1 / 2"
  shows "\<bar>u + h\<bar> \<le> 4"
    and "\<bar>w - (u + h)\<bar> \<le> \<bar>u + h\<bar> / 2 ^ 23 + 1 / 2 ^ 80 \<Longrightarrow> \<bar>w\<bar> < 1"
proof -
  have h': "\<bar>h\<bar> \<le> 1 / 2" using h by simp
  have s: "\<bar>u + h\<bar> \<le> 1 / 2 + 1 / 2 ^ 18" using u h' unfolding abs_le_iff by simp
  then show "\<bar>u + h\<bar> \<le> 4" by simp
  assume "\<bar>w - (u + h)\<bar> \<le> \<bar>u + h\<bar> / 2 ^ 23 + 1 / 2 ^ 80"
  moreover have "\<bar>u + h\<bar> / 2 ^ 23 \<le> (1 / 2 + 1 / 2 ^ 18) / 2 ^ 23"
    by (rule divide_right_mono [OF s]) simp
  ultimately have "\<bar>w - (u + h)\<bar> \<le> 1 / 2 ^ 23" by simp
  then show "\<bar>w\<bar> < 1" using s unfolding abs_le_iff abs_less_iff by simp
qed

lemma expf_general_tiny:
  assumes lo: "1 / 2 ^ 26 \<le> \<bar>f32_val x\<bar>" and hi: "\<bar>f32_val x\<bar> < 1 / 2 ^ 25"
    and t1: "EXP_M1 T 104 = 0x3ff0000000000000" and t2: "EXP_M2 T 0 = 0x3ff0000000000000"
  shows "expf_general T s x = (f32_add (get_round s) 0x3f800000 x, s)"
proof -
  define rm where "rm = get_round s"
  define v where "v = f32_val x"
  define h :: float where "h = (if get_sign x then 0xbf000000 else 0x3f000000)"
  define y1 where "y1 = f32_mul rm x 0x43000000"
  define y2 where "y2 = f32_add rm y1 h"
  define i where "i = f32_to_int y2"
  define y3 where "y3 = int_to_f32 rm i"
  define y4 where "y4 = f32_mul rm y3 0x3c000000"
  define x1 where "x1 = f32_sub rm x y4"
  define xd where "xd = f32_to_f64 x1"
  define p where "p = polyeval (has_fma T) rm xd
                     [0x3ff0000000000000, 0x3feffffffffff777, 0x3fe000000000071c,
                      0x3fc555566668e5e7, 0x3fa55555555ef243]"
  have g: "expf_general T s x =
      (f64_to_f32 rm (f64_mul rm (f64_mul rm (EXP_M1 T ((i + 104 * 2 ^ 7) div 2 ^ 7))
         (EXP_M2 T ((i + 104 * 2 ^ 7) mod 2 ^ 7))) p), s)"
    unfolding expf_general_def Let_def p_def xd_def x1_def y4_def y3_def i_def y2_def y1_def h_def rm_def
    by (rule refl)
  note fx = f32_tiny_bits(4) [OF hi]
  note fx' = fx [unfolded f32_finite_def]
  let ?m = "fst (dy_of 8 23 (unat x))" and ?e = "snd (dy_of 8 23 (unat x))"
  have vabs: "\<bar>v\<bar> = real_of_int \<bar>?m\<bar> * 2 powr of_int ?e"
    by (simp add: v_def f32_val_def valof_def abs_dy_val)
  have lo': "1 / 2 ^ 26 \<le> \<bar>v\<bar>" and hi': "\<bar>v\<bar> < 1 / 2 ^ 25" using lo hi by (simp_all add: v_def)
  have mT: "nat \<bar>?m\<bar> < 2 ^ 24" using finite_dy(1) [OF fx'] by (simp add: nat_less_iff)
  \<comment> \<open>the product with 128 is exact\<close>
  have y1: "f32_val y1 = v * 128 \<and> f32_finite y1"
  proof -
    have "(2::real) powr of_int ?e * 128 = 2 powr of_int ?e * 2 powr of_int 7" by simp
    also have "\<dots> = 2 powr of_int (?e + 7)" by (rule p2_mult) simp
    finally have "\<bar>f32_val x * f32_val 0x43000000\<bar> = real (nat \<bar>?m\<bar>) * 2 powr of_int (?e + 7)"
      using vabs by (simp add: c_128 v_def abs_mult)
    moreover have "- 149 \<le> ?e + 7" using finite_dy(2) [OF fx'] by (simp add: emin_f32)
    moreover have "\<bar>f32_val x * f32_val 0x43000000\<bar> < 2 powr 127"
    proof -
      have "\<bar>f32_val x * f32_val 0x43000000\<bar> = \<bar>v\<bar> * 128" by (simp add: c_128 v_def abs_mult)
      also have "\<dots> < 128 * 128" using hi' by simp
      also have "\<dots> \<le> 2 powr 127" by simp
      finally show ?thesis .
    qed
    ultimately show ?thesis
      unfolding y1_def v_def
      using f32_mul_exact [OF fx c_128(1), of "nat \<bar>?m\<bar>" "?e + 7" rm] mT by (simp add: c_128)
  qed
  \<comment> \<open>the rounded sum with the half stays below one, so the index is zero\<close>
  have hf: "f32_finite h" and hv: "\<bar>f32_val h\<bar> = 1 / 2" by (simp_all add: h_def c_half)
  have u: "\<bar>f32_val y1\<bar> \<le> 1 / 2 ^ 18"
  proof -
    have "\<bar>f32_val y1\<bar> = \<bar>v\<bar> * 128" using y1 by (simp add: abs_mult)
    then show ?thesis using hi' by simp
  qed
  note e2 = f32_add_error [OF conjunct2 [OF y1] hf ra_half(1) [OF u hv], of rm, folded y2_def]
  have y2: "\<bar>f32_val y2\<bar> < 1" by (rule ra_half(2) [OF u hv e2(2)])
  have i0: "i = 0"
  proof -
    have r: "\<bar>f32_val y2\<bar> < 2 ^ 31" using y2 by simp
    note tr = f32_to_int_val [OF e2(1) r, folded i_def]
    show ?thesis
    proof (cases "0 \<le> f32_val y2")
      case True
      from tr(1) [OF True] y2 True have "real_of_int i < 1 \<and> - 1 < real_of_int i"
        unfolding abs_less_iff by auto
      then have "i < 1 \<and> - 1 < i" by simp
      then show ?thesis by simp
    next
      case False
      then have "f32_val y2 \<le> 0" by simp
      from tr(2) [OF this] y2 this have "real_of_int i < 1 \<and> - 1 < real_of_int i"
        unfolding abs_less_iff by auto
      then have "i < 1 \<and> - 1 < i" by simp
      then show ?thesis by simp
    qed
  qed
  \<comment> \<open>so nothing is subtracted from the argument\<close>
  have "\<bar>i\<bar> < 2 ^ 24" using i0 by simp
  note y3 = int_to_f32_exact [OF this, of rm, folded y3_def, unfolded i0]
  have y4: "f32_val y4 = 0 \<and> f32_finite y4"
  proof -
    have "\<bar>f32_val y3 * f32_val 0x3c000000\<bar> = real 0 * 2 powr of_int 0" using y3(1) by simp
    moreover have "\<bar>f32_val y3 * f32_val 0x3c000000\<bar> < 2 powr 127" using y3(1) by simp
    ultimately show ?thesis
      unfolding y4_def
      using f32_mul_exact [OF y3(2) c_2m7(1), of 0 0 rm] y3(1) by simp
  qed
  have x1: "f32_val x1 = v \<and> f32_finite x1"
  proof -
    have "\<bar>f32_val x - f32_val y4\<bar> = real (nat \<bar>?m\<bar>) * 2 powr of_int ?e"
      using vabs y4 by (simp add: v_def)
    moreover have "- 149 \<le> ?e" using finite_dy(2) [OF fx'] by (simp add: emin_f32)
    moreover have "\<bar>f32_val x - f32_val y4\<bar> < 2 powr 127"
    proof -
      have "\<bar>f32_val x - f32_val y4\<bar> < 1" using y4 hi by simp
      also have "(1::real) \<le> 2 powr 127" by simp
      finally show ?thesis .
    qed
    ultimately show ?thesis
      unfolding x1_def
      using f32_sub_exact [OF fx conjunct2 [OF y4], of "nat \<bar>?m\<bar>" ?e rm] mT y4
      by (simp add: v_def)
  qed
  note xd = f32_to_f64_exact [OF conjunct2 [OF x1], folded xd_def, unfolded conjunct1 [OF x1]]
  \<comment> \<open>the polynomial and the product with the table entries\<close>
  have tb: "EXP_M1 T ((i + 104 * 2 ^ 7) div 2 ^ 7) = 0x3ff0000000000000"
    "EXP_M2 T ((i + 104 * 2 ^ 7) mod 2 ^ 7) = 0x3ff0000000000000"
    using t1 t2 by (simp_all add: i0)
  have lo2: "1 / 2 ^ 26 \<le> \<bar>f64_val xd\<bar>" using lo' by (simp add: xd(1))
  have hi2: "\<bar>f64_val xd\<bar> \<le> 1 / 2 ^ 25 - 1 / 2 ^ 49"
    using f32_tiny_bits(3) [OF hi] by (simp add: xd(1) v_def)
  note pb = expf_polyeval_bounds [OF xd(2) lo2 hi2, of "has_fma T" rm, folded p_def, unfolded xd(1)]
  have vnz: "v \<noteq> 0" using lo' by auto
  show ?thesis
  proof (cases "0 < v")
    case True
    note b = pb(2) [OF True]
    have p4: "\<bar>f64_val p\<bar> \<le> 4" using b by simp
    note m = f64_mul_one [OF pb(1) p4, of rm]
    have l: "f64_to_f32 rm (f64_mul rm (f64_mul rm 0x3ff0000000000000 0x3ff0000000000000) p) =
        (if rm = FE_UPWARD then 0x3f800001 else 0x3f800000)"
      by (rule f64_to_f32_near_one(1) [OF m(2)]) (use b in \<open>simp_all add: m(1)\<close>)
    have "f32_val x < 1 / 2 ^ 24" using hi True by (simp add: v_def)
    note r = f32_add_one(1) [OF fx True [unfolded v_def] this, of rm]
    have "expf_general T s x = (f32_add rm 0x3f800000 x, s)" unfolding g tb l r by (rule refl)
    then show ?thesis unfolding rm_def .
  next
    case False
    then have neg: "v < 0" using vnz by simp
    note b = pb(3) [OF neg]
    have p4: "\<bar>f64_val p\<bar> \<le> 4" using b by simp
    note m = f64_mul_one [OF pb(1) p4, of rm]
    have l: "f64_to_f32 rm (f64_mul rm (f64_mul rm 0x3ff0000000000000 0x3ff0000000000000) p) =
        (if rm = FE_DOWNWARD \<or> rm = FE_TOWARDZERO then 0x3f7fffff else 0x3f800000)"
      by (rule f64_to_f32_near_one(2) [OF m(2)]) (use b in \<open>simp_all add: m(1)\<close>)
    have "- (1 / 2 ^ 25) < f32_val x" using hi neg by (simp add: v_def)
    note r = f32_add_one(2) [OF fx this neg [unfolded v_def], of rm]
    have "expf_general T s x = (f32_add rm 0x3f800000 x, s)" unfolding g tb l r by (rule refl)
    then show ?thesis unfolding rm_def .
  qed
qed

lemma expf_shortcut_bits:
  assumes "x AND 0x7fffffff \<le> 0x32800000"
  shows "expf T s x = (f32_add (get_round s) 0x3f800000 x, s)"
proof -
  have a: "unat (x AND 0x7fffffff) \<le> 847249408" using assms by (simp add: word_le_nat_alt)
  have ne: "x \<noteq> 0xc236bd8c"
  proof
    assume "x = 0xc236bd8c"
    then have "x AND 0x7fffffff = 0x4236bd8c" by simp
    then show False using assms by simp
  qed
  have "unat (x AND 0x7fffffff) div 8388608 \<le> 847249408 div 8388608"
    by (rule div_le_mono [OF a])
  then have e: "get_unbiased_exponent x \<le> 101"
    unfolding get_unbiased_exponent_abs by simp
  show ?thesis using ne e assms by (simp add: expf_def Let_def uintval_def)
qed

lemma expf_general_bits:
  assumes "0x32800000 < x AND 0x7fffffff" "x AND 0x7fffffff < 0x33000000"
  shows "expf T s x = expf_general T s x"
proof -
  have ne: "x \<noteq> 0xc236bd8c"
  proof
    assume "x = 0xc236bd8c"
    then have "x AND 0x7fffffff = 0x4236bd8c" by simp
    then show False using assms(2) by simp
  qed
  have 1: "\<not> 0x42b20000 \<le> x AND 0x7fffffff"
    using assms(2) by (simp add: word_less_nat_alt word_le_nat_alt)
  have 2: "\<not> x AND 0x7fffffff \<le> 0x32800000"
    using assms(1) by (simp add: word_less_nat_alt word_le_nat_alt)
  show ?thesis using ne 1 2 by (simp add: expf_def Let_def uintval_def)
qed

lemma one_plus_tiny_upward: "f32_add FE_UPWARD 0x3f800000 0x32c00000 = 0x3f800001"
  by (simp add: ieee_eval_simps)

text \<open>
  Claim C5. For every float \<open>x\<close> with \<open>|x| < 2^-25\<close> that is not a NaN, \<^verbatim>\<open>expf(x)\<close> is,
  bit for bit, the float \<^verbatim>\<open>1.0f + x\<close> computed in the current rounding mode. The shortcut
  \<^verbatim>\<open>return 1.0f + x\<close> is taken for \<open>|x| \<le> 2^-26\<close> only; an argument with
  \<open>2^-26 < |x| < 2^-25\<close> goes through the range reduction, the tables and the polynomial,
  and the result there is the same float, under each of the four rounding modes and with
  or without a fused multiply-add. The tables \<^verbatim>\<open>EXP_M1\<close> and \<^verbatim>\<open>EXP_M2\<close> are parameters of the
  model; the two entries that these arguments read hold \<open>exp(0) = 1.0\<close>.
\<close>

theorem expf_tiny:
  assumes fx: "f32_finite x" and small: "\<bar>f32_val x\<bar> < 1 / 2 ^ 25"
    and t1: "EXP_M1 T 104 = 0x3ff0000000000000" and t2: "EXP_M2 T 0 = 0x3ff0000000000000"
  shows "expf T s x = (f32_add (get_round s) 0x3f800000 x, s)"
proof (cases "\<bar>f32_val x\<bar> \<le> 1 / 2 ^ 26")
  case True
  then have "x AND 0x7fffffff \<le> 0x32800000" by (rule f32_tiny_bits(1) [THEN iffD1])
  then show ?thesis by (rule expf_shortcut_bits)
next
  case False
  have 1: "0x32800000 < x AND 0x7fffffff"
  proof (rule ccontr)
    assume "\<not> 0x32800000 < x AND 0x7fffffff"
    then have "x AND 0x7fffffff \<le> 0x32800000" by (simp only: not_less)
    then have "\<bar>f32_val x\<bar> \<le> 1 / 2 ^ 26" by (rule f32_tiny_bits(1) [THEN iffD2])
    with False show False by (rule notE)
  qed
  have 2: "x AND 0x7fffffff < 0x33000000" using small by (rule f32_tiny_bits(2) [THEN iffD1])
  have lo: "1 / 2 ^ 26 \<le> \<bar>f32_val x\<bar>" using False by simp
  show ?thesis
    unfolding expf_general_bits [OF 1 2] by (rule expf_general_tiny [OF lo small t1 t2])
qed

theorem expf_tiny_witness:
  "f32_finite 0x32c00000 \<and> \<bar>f32_val 0x32c00000\<bar> < 1 / 2 ^ 25 \<and>
   \<not> \<bar>f32_val 0x32c00000\<bar> \<le> 1 / 2 ^ 26 \<and>
   EXP_M1 target_no_fma 104 = 0x3ff0000000000000 \<and> EXP_M2 target_no_fma 0 = 0x3ff0000000000000 \<and>
   expf target_no_fma (default_fenv\<lparr>rmode := FE_UPWARD\<rparr>) 0x32c00000 =
     (0x3f800001, default_fenv\<lparr>rmode := FE_UPWARD\<rparr>)"
  using expf_tiny [of "0x32c00000" target_no_fma "default_fenv\<lparr>rmode := FE_UPWARD\<rparr>"]
  by (simp add: pattern_simps target_no_fma_def unit_table_def get_round_def default_fenv_def
      one_plus_tiny_upward)

section \<open>The overflow and underflow boundaries, by value\<close>

lemma f32_above_bits:
  fixes x c :: "32 word"
  assumes fx: "f32_finite x" and c: "c < 0x80000000" and c0: "0 < f32_val c"
    and ge: "f32_val c \<le> f32_val x"
  shows "c \<le> x" and "x < 0x7f800000"
proof -
  have "\<not> get_sign x" using f32_sign_val(1) [of x] c0 ge by auto
  then have "x < 0x80000000" by (simp add: get_sign_abs not_le)
  then have a: "x AND 0x7fffffff = x" by (rule abs_id)
  show "x < 0x7f800000" using fx unfolding f32_finite_abs a .
  have "\<not> \<bar>f32_val x\<bar> < f32_val c" using ge c0 by simp
  then have "\<not> x < c" using f32_abs_compare(2) [OF c, of x] unfolding a by simp
  then show "c \<le> x" by (simp only: not_less)
qed

lemma f32_below_bits:
  fixes x c :: "32 word"
  assumes fx: "f32_finite x" and c: "c < 0x80000000" and c0: "0 \<le> f32_val c"
    and lt: "f32_val x < - f32_val c"
  shows "0x80000000 + c < x" and "x < 0xff800000"
proof -
  have "get_sign x" using f32_sign_val(2) [of x] c0 lt by auto
  then have s: "0x80000000 \<le> x" by (simp only: get_sign_abs)
  note a = neg_abs [OF s]
  have s': "2147483648 \<le> unat x" using s by (simp add: word_le_nat_alt)
  have "unat (x AND 0x7fffffff) < 2139095040"
    using fx unfolding f32_finite_abs by (simp add: word_less_nat_alt)
  then show "x < 0xff800000" using s' unfolding a by (simp add: word_less_nat_alt)
  have "\<not> \<bar>f32_val x\<bar> \<le> f32_val c" using lt c0 by simp
  then have "\<not> x AND 0x7fffffff \<le> c" using f32_abs_compare(1) [OF c, of x] by simp
  then have "unat c < unat x - 2147483648" unfolding word_le_nat_alt a by simp
  moreover have "unat c < 2147483648" using c by (simp add: word_less_nat_alt)
  ultimately show "0x80000000 + c < x"
    using s' by (simp add: word_less_nat_alt unat_word_ariths)
qed

lemma f32_bounds:
  "f32_val 0x42b20000 = 89" "f32_val 0x43160000 = 150"
  by (simp_all add: pattern_simps)

text \<open>
  Claim C1, as amended. For every finite float \<open>x\<close> at or above the overflow threshold
  (\<open>x \<ge> 89\<close> for \<^verbatim>\<open>expf\<close> and \<^verbatim>\<open>expm1f\<close>, \<open>x \<ge> 128\<close> for \<^verbatim>\<open>exp2f\<close>), the function
  returns \<^verbatim>\<open>MAX_NORMAL\<close> and leaves \<^verbatim>\<open>errno\<close> alone under \<^verbatim>\<open>FE_DOWNWARD\<close> and
  \<^verbatim>\<open>FE_TOWARDZERO\<close>; under \<^verbatim>\<open>FE_TONEAREST\<close> and \<^verbatim>\<open>FE_UPWARD\<close> it sets \<^verbatim>\<open>errno\<close> to
  \<^verbatim>\<open>ERANGE\<close> and returns \<open>+infinity\<close>.
\<close>

theorem overflow_boundary:
  "f32_finite x \<Longrightarrow>
   (89 \<le> f32_val x \<longrightarrow>
      expf T s x =
        (if rmode s = FE_DOWNWARD \<or> rmode s = FE_TOWARDZERO then (get_val MAX_NORMAL, s)
         else (FPBits_inf, set_errno ERANGE s)) \<and>
      expm1f T s x =
        (if rmode s = FE_DOWNWARD \<or> rmode s = FE_TOWARDZERO then (get_val MAX_NORMAL, s)
         else (FPBits_inf, set_errno ERANGE s))) \<and>
   (128 \<le> f32_val x \<longrightarrow>
      exp2f T s x =
        (if rmode s = FE_DOWNWARD \<or> rmode s = FE_TOWARDZERO then (get_val MAX_NORMAL, s)
         else (FPBits_inf, set_errno ERANGE s)))"
proof (intro conjI impI)
  assume fx: "f32_finite x" and ge: "89 \<le> f32_val x"
  have b: "0x42b20000 \<le> x" "x < 0x7f800000"
    using f32_above_bits [OF fx, of "0x42b20000"] ge by (simp_all add: f32_bounds)
  show "expf T s x =
        (if rmode s = FE_DOWNWARD \<or> rmode s = FE_TOWARDZERO then (get_val MAX_NORMAL, s)
         else (FPBits_inf, set_errno ERANGE s))"
    using b by (simp add: expf_overflow_bits get_val_def MAX_NORMAL_def FPBits_inf_def set_errno_def)
  show "expm1f T s x =
        (if rmode s = FE_DOWNWARD \<or> rmode s = FE_TOWARDZERO then (get_val MAX_NORMAL, s)
         else (FPBits_inf, set_errno ERANGE s))"
    using b by (simp add: expm1f_overflow_bits get_val_def MAX_NORMAL_def FPBits_inf_def set_errno_def)
next
  assume fx: "f32_finite x" and ge: "128 \<le> f32_val x"
  have b: "0x43000000 \<le> x" "x < 0x7f800000"
    using f32_above_bits [OF fx, of "0x43000000"] ge by (simp_all add: c_128)
  show "exp2f T s x =
        (if rmode s = FE_DOWNWARD \<or> rmode s = FE_TOWARDZERO then (get_val MAX_NORMAL, s)
         else (FPBits_inf, set_errno ERANGE s))"
    using b by (simp add: exp2f_overflow_bits get_val_def MAX_NORMAL_def FPBits_inf_def set_errno_def)
qed

theorem overflow_boundary_witness:
  "f32_finite 0x43000000 \<and> 89 \<le> f32_val 0x43000000 \<and> 128 \<le> f32_val 0x43000000 \<and>
   expf target_no_fma default_fenv 0x43000000 = (FPBits_inf, set_errno ERANGE default_fenv) \<and>
   expm1f target_no_fma default_fenv 0x43000000 = (FPBits_inf, set_errno ERANGE default_fenv) \<and>
   exp2f target_no_fma default_fenv 0x43000000 = (FPBits_inf, set_errno ERANGE default_fenv)"
  using overflow_boundary [of "0x43000000" target_no_fma default_fenv]
  by (simp add: default_fenv_def c_128)

text \<open>
  Claim C2. For every finite nonzero float \<open>x\<close> below the underflow threshold (for
  \<^verbatim>\<open>expf\<close> the bit patterns from \<open>0xc2cff1b5\<close> on, for \<^verbatim>\<open>exp2f\<close> the values \<open>x < -150\<close>),
  the function returns \<^verbatim>\<open>MIN_SUBNORMAL\<close> and leaves \<^verbatim>\<open>errno\<close> alone under \<^verbatim>\<open>FE_UPWARD\<close>,
  and returns \<open>0.0f\<close> and sets \<^verbatim>\<open>errno\<close> to \<^verbatim>\<open>ERANGE\<close> under every other rounding mode.
\<close>

theorem underflow_boundary:
  "f32_finite x \<Longrightarrow>
   (0xc2cff1b5 \<le> x \<longrightarrow>
      expf T s x =
        (if rmode s = FE_UPWARD then (get_val MIN_SUBNORMAL, s)
         else (0x00000000, set_errno ERANGE s))) \<and>
   (f32_val x < - 150 \<longrightarrow>
      exp2f T s x =
        (if rmode s = FE_UPWARD then (get_val MIN_SUBNORMAL, s)
         else (0x00000000, set_errno ERANGE s)))"
proof (intro conjI impI)
  assume fx: "f32_finite x" and ge: "0xc2cff1b5 \<le> x"
  have s: "0x80000000 \<le> x" using ge by (simp add: word_le_nat_alt)
  have s': "2147483648 \<le> unat x" using s by (simp add: word_le_nat_alt)
  have "unat (x AND 0x7fffffff) < 2139095040"
    using fx unfolding f32_finite_abs by (simp add: word_less_nat_alt)
  then have "x < 0xff800000" using s' unfolding neg_abs [OF s] by (simp add: word_less_nat_alt)
  then show "expf T s x =
        (if rmode s = FE_UPWARD then (get_val MIN_SUBNORMAL, s)
         else (0x00000000, set_errno ERANGE s))"
    using ge by (simp add: expf_underflow_bits get_val_def MIN_SUBNORMAL_def set_errno_def)
next
  assume fx: "f32_finite x" and lt: "f32_val x < - 150"
  have b: "0x80000000 + 0x43160000 < x" "x < 0xff800000"
    using f32_below_bits [OF fx, of "0x43160000"] lt by (simp_all add: f32_bounds)
  then have "0xc3160000 \<le> x" by simp
  then show "exp2f T s x =
        (if rmode s = FE_UPWARD then (get_val MIN_SUBNORMAL, s)
         else (0x00000000, set_errno ERANGE s))"
    using b(2) by (simp add: exp2f_underflow_bits get_val_def MIN_SUBNORMAL_def set_errno_def)
qed

theorem underflow_boundary_witness:
  "f32_finite 0xc3160001 \<and> (0xc2cff1b5 :: 32 word) \<le> 0xc3160001 \<and> f32_val 0xc3160001 < - 150 \<and>
   expf target_no_fma default_fenv 0xc3160001 = (0x00000000, set_errno ERANGE default_fenv) \<and>
   exp2f target_no_fma default_fenv 0xc3160001 = (0x00000000, set_errno ERANGE default_fenv)"
  using underflow_boundary [of "0xc3160001" target_no_fma default_fenv]
  by (simp add: default_fenv_def pattern_simps)

end
